theory Spec2Isabelle
  imports Main "HOL-Library.AList"
begin

section \<open>Configuration constants\<close>

text \<open>
  \<^verbatim>\<open>config.h\<close> and \<^verbatim>\<open>btree.h\<close>. A leaf header is four 32-bit integers (16 bytes), a leaf
  entry is a 32-bit key and \<open>VALUE_SIZE\<close> value bytes (132 bytes), the common header is three
  32-bit integers (12 bytes); the capacities are computed from these sizes as the header
  file does.
\<close>

definition PAGE_SIZE :: nat where "PAGE_SIZE = 4096"
definition MAX_PAGES_IN_RAM :: nat where "MAX_PAGES_IN_RAM = 64"
definition VALUE_SIZE :: nat where "VALUE_SIZE = 128"
definition INVALID_PAGE_ID :: int where "INVALID_PAGE_ID = - 1"
definition META_PAGE_ID :: int where "META_PAGE_ID = 0"
definition LEAF_HEADER_SIZE :: nat where "LEAF_HEADER_SIZE = 16"
definition LEAF_ENTRY_SIZE :: nat where "LEAF_ENTRY_SIZE = 4 + VALUE_SIZE"
definition LEAF_MAX_ENTRIES :: nat where
  "LEAF_MAX_ENTRIES = (PAGE_SIZE - LEAF_HEADER_SIZE) div LEAF_ENTRY_SIZE"
definition INTERNAL_HEADER_SIZE :: nat where "INTERNAL_HEADER_SIZE = 12"
definition INTERNAL_MAX_KEYS :: nat where
  "INTERNAL_MAX_KEYS = (PAGE_SIZE - INTERNAL_HEADER_SIZE - 4) div (2 * 4)"

section \<open>Page images\<close>

text \<open>
  The source overlays C structs on the 4096 bytes of a page. The model keeps the typed
  view: a page image is the all-zero page, the meta page, a leaf or an internal node. The
  arrays of a node are kept as lists of their live prefix, so \<open>num_keys\<close> is the length of
  \<open>entries\<close> (leaf) or of \<open>keys\<close> (internal node, which has \<open>num_keys + 1\<close> children). Keys and
  page ids are C \<open>int\<close>s; the code only compares and copies them, so they are modelled as
  \<open>int\<close>. Reading a page under another variant than the one it holds depends on the byte
  layout and is reported as the error \<open>LayoutMismatch\<close>; the all-zero page read as a meta
  page has root id 0, and read as a node it is a node of type \<open>INVALID\<close> with no keys, parent 0
  and next page 0.

  The leaf functions never look at \<open>page_type\<close>, so they also work on the all-zero page and
  leave a page whose \<open>page_type\<close> is still 0 (\<open>INVALID\<close>) and whose other bytes are those of a
  leaf: \<open>UntypedLeaf parent next entries\<close>. Its first \<open>int\<close> is 0, which is also what the meta
  page view reads as the root id.
\<close>

datatype error = IOError | NullDeref | LayoutMismatch | OutOfBounds | OutOfFuel

datatype PageType = INVALID | LEAF | INTERNAL

record LeafEntry =
  key :: int
  value_bytes :: "char list"

datatype page_data =
    Zeroed
  | MetaPage int
  | LeafPage int int "LeafEntry list"
  | InternalPage int "int list" "int list"
  | UntypedLeaf int int "LeafEntry list"

text \<open>\<open>LeafPage parent next entries\<close> and \<open>InternalPage parent keys children\<close>.\<close>

section \<open>Disk manager\<close>

text \<open>
  The file is the list of its pages; \<open>num_pages\<close> is the allocation counter, which
  \<open>AllocatePage\<close> advances without writing. A read past the end of the file is padded with
  zeros; a write past the end extends the file (the gap reads as zeros). Seeking to a
  negative offset fails, and the source throws.
\<close>

record DiskManager =
  file_pages :: "page_data list"
  num_pages :: nat

definition OpenDisk :: "page_data list \<Rightarrow> DiskManager" where
  "OpenDisk f = \<lparr>file_pages = f, num_pages = length f\<rparr>"

definition ReadPage :: "int \<Rightarrow> DiskManager \<Rightarrow> error + page_data" where
  "ReadPage pid d =
     (if pid < 0 then Inl IOError
      else if nat pid < length (file_pages d) then Inr (file_pages d ! nat pid)
      else Inr Zeroed)"

definition WritePage :: "int \<Rightarrow> page_data \<Rightarrow> DiskManager \<Rightarrow> error + DiskManager" where
  "WritePage pid pg d =
     (if pid < 0 then Inl IOError
      else let f = file_pages d;
               f' = f @ replicate (Suc (nat pid) - length f) Zeroed
           in Inr (d\<lparr>file_pages := f'[nat pid := pg]\<rparr>))"

definition AllocatePage :: "DiskManager \<Rightarrow> int \<times> DiskManager" where
  "AllocatePage d = (int (num_pages d), d\<lparr>num_pages := Suc (num_pages d)\<rparr>)"

definition GetNumPages :: "DiskManager \<Rightarrow> int" where
  "GetNumPages d = int (num_pages d)"

section \<open>Buffer pool manager\<close>

text \<open>
  A \<open>Page*\<close> of the source is the index of its frame in \<open>pages\<close>; the null pointer is
  \<open>None\<close>. The page table is an association list with unique keys. \<open>lru_map\<close> is the index
  of \<open>lru_list\<close> (a frame has an entry exactly when it occurs in the list), so it is
  represented by membership in the list, and erasing through the stored iterator removes
  the occurrence nearest the front.
\<close>

record Page =
  page_id :: int
  data :: page_data
  is_dirty :: bool
  pin_count :: int

record BufferPoolManager =
  pool_size :: nat
  disk_manager :: DiskManager
  pages :: "Page list"
  page_table :: "(int \<times> nat) list"
  free_list :: "nat list"
  lru_list :: "nat list"

definition NewBufferPoolManager :: "nat \<Rightarrow> DiskManager \<Rightarrow> BufferPoolManager" where
  "NewBufferPoolManager n d =
     \<lparr>pool_size = n, disk_manager = d,
      pages = replicate n \<lparr>page_id = - 1, data = Zeroed, is_dirty = False, pin_count = 0\<rparr>,
      page_table = [], free_list = [0..<n], lru_list = []\<rparr>"

text \<open>
  The eviction loop of \<open>FindVictimPage\<close>: pop the back of the LRU list until a frame with
  pin count 0 is found. It returns the frame, if any, and the list that is left.
\<close>

function lru_scan :: "Page list \<Rightarrow> nat list \<Rightarrow> nat option \<times> nat list" where
  "lru_scan pgs lru =
     (if lru = [] then (None, lru)
      else let frame_id = last lru; lru' = butlast lru
           in if pin_count (pgs ! frame_id) = 0 then (Some frame_id, lru')
              else lru_scan pgs lru')"
  by pat_completeness auto
termination
  by (relation "measure (\<lambda>(pgs, lru). length lru)") auto

declare lru_scan.simps [simp del]

definition FindVictimPage :: "BufferPoolManager \<Rightarrow> nat \<times> BufferPoolManager" where
  "FindVictimPage bp =
     (if free_list bp \<noteq> [] then (hd (free_list bp), bp\<lparr>free_list := tl (free_list bp)\<rparr>)
      else case lru_scan (pages bp) (lru_list bp) of
             (Some frame_id, lru') \<Rightarrow> (frame_id, bp\<lparr>lru_list := lru'\<rparr>)
           | (None, lru') \<Rightarrow> (pool_size bp, bp\<lparr>lru_list := lru'\<rparr>))"

text \<open>
  The block shared by \<open>FetchPage\<close> and \<open>NewPage\<close>: if the victim frame holds a page, write it
  back when dirty and erase its page id from the page table.
\<close>

definition EvictVictim :: "nat \<Rightarrow> BufferPoolManager \<Rightarrow> error + BufferPoolManager" where
  "EvictVictim frame_id bp =
     (let page = pages bp ! frame_id in
      if page_id page \<noteq> - 1 then
        (if is_dirty page then
           (case WritePage (page_id page) (data page) (disk_manager bp) of
              Inl e \<Rightarrow> Inl e
            | Inr d \<Rightarrow> Inr (bp\<lparr>disk_manager := d,
                               page_table := AList.delete (page_id page) (page_table bp)\<rparr>))
         else Inr (bp\<lparr>page_table := AList.delete (page_id page) (page_table bp)\<rparr>))
      else Inr bp)"

definition FetchPage :: "int \<Rightarrow> BufferPoolManager \<Rightarrow> error + (nat option \<times> BufferPoolManager)" where
  "FetchPage pid bp =
     (case map_of (page_table bp) pid of
        Some frame_id \<Rightarrow>
          let page = pages bp ! frame_id;
              page' = page\<lparr>pin_count := pin_count page + 1\<rparr>
          in Inr (Some frame_id,
                  bp\<lparr>pages := (pages bp)[frame_id := page'],
                     lru_list := (if frame_id \<in> set (lru_list bp)
                                  then remove1 frame_id (lru_list bp) else lru_list bp)\<rparr>)
      | None \<Rightarrow>
          (case FindVictimPage bp of (frame_id, bp1) \<Rightarrow>
             if frame_id = pool_size bp1 then Inr (None, bp1)
             else (case EvictVictim frame_id bp1 of
                     Inl e \<Rightarrow> Inl e
                   | Inr bp2 \<Rightarrow>
                       (case ReadPage pid (disk_manager bp2) of
                          Inl e \<Rightarrow> Inl e
                        | Inr pg \<Rightarrow>
                            Inr (Some frame_id,
                                 bp2\<lparr>pages := (pages bp2)[frame_id :=
                                         \<lparr>page_id = pid, data = pg, is_dirty = False,
                                          pin_count = 1\<rparr>],
                                     page_table := AList.update pid frame_id (page_table bp2)\<rparr>)))))"

definition UnpinPage :: "int \<Rightarrow> bool \<Rightarrow> BufferPoolManager \<Rightarrow> bool \<times> BufferPoolManager" where
  "UnpinPage pid dirty bp =
     (case map_of (page_table bp) pid of
        None \<Rightarrow> (False, bp)
      | Some frame_id \<Rightarrow>
          let page = pages bp ! frame_id in
          if pin_count page \<le> 0 then (False, bp)
          else let page' = page\<lparr>pin_count := pin_count page - 1,
                               is_dirty := (if dirty then True else is_dirty page)\<rparr>
               in (True,
                   bp\<lparr>pages := (pages bp)[frame_id := page'],
                      lru_list := (if pin_count page' = 0 then frame_id # lru_list bp
                                   else lru_list bp)\<rparr>))"


text \<open>\<open>NewPage\<close> returns the frame together with the page id it stores through its argument.\<close>

definition NewPage :: "BufferPoolManager \<Rightarrow> error + ((nat \<times> int) option \<times> BufferPoolManager)" where
  "NewPage bp =
     (case FindVictimPage bp of (frame_id, bp1) \<Rightarrow>
        if frame_id = pool_size bp1 then Inr (None, bp1)
        else (case EvictVictim frame_id bp1 of
                Inl e \<Rightarrow> Inl e
              | Inr bp2 \<Rightarrow>
                  (case AllocatePage (disk_manager bp2) of (pid, d) \<Rightarrow>
                     Inr (Some (frame_id, pid),
                          bp2\<lparr>disk_manager := d,
                              pages := (pages bp2)[frame_id :=
                                  \<lparr>page_id = pid, data = Zeroed, is_dirty = False,
                                   pin_count = 1\<rparr>],
                              page_table := AList.update pid frame_id (page_table bp2)\<rparr>))))"

definition DeletePage :: "int \<Rightarrow> BufferPoolManager \<Rightarrow> bool \<times> BufferPoolManager" where
  "DeletePage pid bp =
     (case map_of (page_table bp) pid of
        None \<Rightarrow> (True, bp)
      | Some frame_id \<Rightarrow>
          let page = pages bp ! frame_id in
          if pin_count page > 0 then (False, bp)
          else (True,
                bp\<lparr>lru_list := (if frame_id \<in> set (lru_list bp)
                                 then remove1 frame_id (lru_list bp) else lru_list bp),
                   page_table := AList.delete pid (page_table bp),
                   pages := (pages bp)[frame_id :=
                       page\<lparr>page_id := - 1, is_dirty := False, pin_count := 0\<rparr>],
                   free_list := free_list bp @ [frame_id]\<rparr>))"



section \<open>B+ tree: page views\<close>

record BPlusTree =
  buffer_pool_manager :: BufferPoolManager
  root_page_id :: int

definition frame_data :: "nat \<Rightarrow> BPlusTree \<Rightarrow> page_data" where
  "frame_data f t = data (pages (buffer_pool_manager t) ! f)"

definition frame_page_id :: "nat \<Rightarrow> BPlusTree \<Rightarrow> int" where
  "frame_page_id f t = page_id (pages (buffer_pool_manager t) ! f)"

definition set_frame_data :: "nat \<Rightarrow> page_data \<Rightarrow> BPlusTree \<Rightarrow> BPlusTree" where
  "set_frame_data f pg t =
     (let bp = buffer_pool_manager t
      in t\<lparr>buffer_pool_manager := bp\<lparr>pages := (pages bp)[f := (pages bp ! f)\<lparr>data := pg\<rparr>]\<rparr>\<rparr>)"

definition tree_fetch :: "int \<Rightarrow> BPlusTree \<Rightarrow> error + (nat option \<times> BPlusTree)" where
  "tree_fetch pid t =
     (case FetchPage pid (buffer_pool_manager t) of
        Inl e \<Rightarrow> Inl e
      | Inr (r, bp) \<Rightarrow> Inr (r, t\<lparr>buffer_pool_manager := bp\<rparr>))"

definition tree_unpin :: "int \<Rightarrow> bool \<Rightarrow> BPlusTree \<Rightarrow> BPlusTree" where
  "tree_unpin pid dirty t =
     t\<lparr>buffer_pool_manager := snd (UnpinPage pid dirty (buffer_pool_manager t))\<rparr>"

definition tree_new_page :: "BPlusTree \<Rightarrow> error + ((nat \<times> int) option \<times> BPlusTree)" where
  "tree_new_page t =
     (case NewPage (buffer_pool_manager t) of
        Inl e \<Rightarrow> Inl e
      | Inr (r, bp) \<Rightarrow> Inr (r, t\<lparr>buffer_pool_manager := bp\<rparr>))"

fun page_type_of :: "page_data \<Rightarrow> error + PageType" where
  "page_type_of Zeroed = Inr INVALID"
| "page_type_of (LeafPage p n es) = Inr LEAF"
| "page_type_of (InternalPage p ks cs) = Inr INTERNAL"
| "page_type_of (UntypedLeaf p n es) = Inr INVALID"
| "page_type_of (MetaPage r) = Inl LayoutMismatch"

fun as_leaf :: "page_data \<Rightarrow> error + (int \<times> int \<times> LeafEntry list)" where
  "as_leaf Zeroed = Inr (0, 0, [])"
| "as_leaf (LeafPage p n es) = Inr (p, n, es)"
| "as_leaf (UntypedLeaf p n es) = Inr (p, n, es)"
| "as_leaf pg = Inl LayoutMismatch"

fun as_internal :: "page_data \<Rightarrow> error + (int \<times> int list \<times> int list)" where
  "as_internal (InternalPage p ks cs) = Inr (p, ks, cs)"
| "as_internal pg = Inl LayoutMismatch"

fun meta_root :: "page_data \<Rightarrow> error + int" where
  "meta_root Zeroed = Inr 0"
| "meta_root (MetaPage r) = Inr r"
| "meta_root (UntypedLeaf p n es) = Inr 0"
| "meta_root pg = Inl LayoutMismatch"

text \<open>
  The root id of the meta page is the first \<open>int\<close> of the page, where a node has its
  \<open>page_type\<close>: written into an untyped leaf, the root id 1 (\<open>LEAF\<close>) makes it a leaf.
\<close>

fun set_meta_root :: "int \<Rightarrow> page_data \<Rightarrow> error + page_data" where
  "set_meta_root r Zeroed = Inr (MetaPage r)"
| "set_meta_root r (MetaPage r') = Inr (MetaPage r)"
| "set_meta_root r (UntypedLeaf p n es) =
     (if r = 0 then Inr (UntypedLeaf p n es)
      else if r = 1 then Inr (LeafPage p n es)
      else Inl LayoutMismatch)"
| "set_meta_root r pg = Inl LayoutMismatch"

text \<open>
  \<open>put_leaf pg parent next entries\<close> overwrites the leaf fields of a page that \<open>as_leaf\<close>
  reads and leaves its \<open>page_type\<close> as it is. A page of type 0 with parent 0, next page 0
  and no entry is the all-zero page.
\<close>

definition untyped_leaf :: "int \<Rightarrow> int \<Rightarrow> LeafEntry list \<Rightarrow> page_data" where
  "untyped_leaf p n es = (if p = 0 \<and> n = 0 \<and> es = [] then Zeroed else UntypedLeaf p n es)"

fun put_leaf :: "page_data \<Rightarrow> int \<Rightarrow> int \<Rightarrow> LeafEntry list \<Rightarrow> page_data" where
  "put_leaf (LeafPage p0 n0 es0) p n es = LeafPage p n es"
| "put_leaf pg p n es = untyped_leaf p n es"

fun parent_of :: "page_data \<Rightarrow> error + int" where
  "parent_of (LeafPage p n es) = Inr p"
| "parent_of (InternalPage p ks cs) = Inr p"
| "parent_of (UntypedLeaf p n es) = Inr p"
| "parent_of Zeroed = Inr 0"
| "parent_of pg = Inl LayoutMismatch"

fun set_parent :: "int \<Rightarrow> page_data \<Rightarrow> error + page_data" where
  "set_parent q (LeafPage p n es) = Inr (LeafPage q n es)"
| "set_parent q (InternalPage p ks cs) = Inr (InternalPage q ks cs)"
| "set_parent q (UntypedLeaf p n es) = Inr (untyped_leaf q n es)"
| "set_parent q Zeroed = Inr (untyped_leaf q 0 [])"
| "set_parent q pg = Inl LayoutMismatch"

section \<open>B+ tree: value bytes\<close>

text \<open>
  \<open>store_value v\<close> is the array left by \<open>memset(value, 0, VALUE_SIZE)\<close> followed by
  \<open>strncpy(value, v.c_str(), VALUE_SIZE - 1)\<close>: the bytes of \<open>v\<close> up to its first NUL, at most
  \<open>VALUE_SIZE - 1\<close> of them, padded with NULs. \<open>c_string\<close> is \<open>std::string(value)\<close>, the bytes
  before the first NUL, and \<open>value_present\<close> is the test \<open>value[0] != 0\<close>.
\<close>

definition NUL :: char where "NUL = CHR 0x00"

definition zero_value :: "char list" where
  "zero_value = replicate VALUE_SIZE NUL"

definition store_value :: "char list \<Rightarrow> char list" where
  "store_value v =
     (let s = take (VALUE_SIZE - 1) (takeWhile (\<lambda>c. c \<noteq> NUL) v)
      in s @ replicate (VALUE_SIZE - length s) NUL)"

definition c_string :: "char list \<Rightarrow> char list" where
  "c_string a = takeWhile (\<lambda>c. c \<noteq> NUL) a"

definition value_present :: "char list \<Rightarrow> bool" where
  "value_present a = (case a of [] \<Rightarrow> False | c # cs \<Rightarrow> c \<noteq> NUL)"

section \<open>B+ tree: node primitives\<close>

function LeafFindKey_loop :: "LeafEntry list \<Rightarrow> int \<Rightarrow> nat \<Rightarrow> nat \<Rightarrow> nat" where
  "LeafFindKey_loop es k lo hi =
     (if lo < hi then
        (if key (es ! ((lo + hi) div 2)) < k
         then LeafFindKey_loop es k ((lo + hi) div 2 + 1) hi
         else LeafFindKey_loop es k lo ((lo + hi) div 2))
      else lo)"
  by pat_completeness auto
termination
  by (relation "measure (\<lambda>(es, k, lo, hi). hi - lo)") auto

declare LeafFindKey_loop.simps [simp del]

definition LeafFindKey :: "LeafEntry list \<Rightarrow> int \<Rightarrow> nat" where
  "LeafFindKey es k = LeafFindKey_loop es k 0 (length es)"

function InternalFindChild_loop :: "int list \<Rightarrow> int \<Rightarrow> nat \<Rightarrow> nat \<Rightarrow> nat" where
  "InternalFindChild_loop ks k lo hi =
     (if lo < hi then
        (if ks ! ((lo + hi) div 2) \<le> k
         then InternalFindChild_loop ks k ((lo + hi) div 2 + 1) hi
         else InternalFindChild_loop ks k lo ((lo + hi) div 2))
      else lo)"
  by pat_completeness auto
termination
  by (relation "measure (\<lambda>(ks, k, lo, hi). hi - lo)") auto

declare InternalFindChild_loop.simps [simp del]

definition InternalFindChild :: "int list \<Rightarrow> int list \<Rightarrow> int \<Rightarrow> error + int" where
  "InternalFindChild ks cs k =
     (let lo = InternalFindChild_loop ks k 0 (length ks)
      in if lo < length cs then Inr (cs ! lo) else Inl OutOfBounds)"

text \<open>
  \<open>LeafInsert\<close> on the entries of a leaf: overwrite the value of an entry with the same key,
  or shift the entries from \<open>idx\<close> on one place to the right and write the new entry.
\<close>

definition leaf_insert_entries :: "LeafEntry list \<Rightarrow> int \<Rightarrow> char list \<Rightarrow> LeafEntry list" where
  "leaf_insert_entries es k v =
     (let idx = LeafFindKey es k in
      if idx < length es \<and> key (es ! idx) = k
      then es[idx := (es ! idx)\<lparr>value_bytes := store_value v\<rparr>]
      else take idx es @ [\<lparr>key = k, value_bytes = store_value v\<rparr>] @ drop idx es)"

definition LeafInsert :: "nat \<Rightarrow> int \<Rightarrow> char list \<Rightarrow> BPlusTree \<Rightarrow> error + (bool \<times> BPlusTree)" where
  "LeafInsert page k v t =
     (case as_leaf (frame_data page t) of
        Inl e \<Rightarrow> Inl e
      | Inr (p, n, es) \<Rightarrow>
          Inr (True, set_frame_data page
                       (put_leaf (frame_data page t) p n (leaf_insert_entries es k v)) t))"

text \<open>The linear search for the insertion index used by \<open>InternalInsert\<close> and \<open>SplitInternal\<close>.\<close>

fun internal_insert_index :: "int list \<Rightarrow> int \<Rightarrow> nat" where
  "internal_insert_index [] k = 0"
| "internal_insert_index (x # xs) k = (if x < k then Suc (internal_insert_index xs k) else 0)"

definition InternalInsert :: "nat \<Rightarrow> int \<Rightarrow> int \<Rightarrow> BPlusTree \<Rightarrow> error + BPlusTree" where
  "InternalInsert page k right_child_id t =
     (case frame_data page t of
        InternalPage p ks cs \<Rightarrow>
          (let idx = internal_insert_index ks k in
           Inr (set_frame_data page
                  (InternalPage p (take idx ks @ [k] @ drop idx ks)
                     (take (Suc idx) cs @ [right_child_id] @ drop (Suc idx) cs)) t))
      | pg \<Rightarrow> Inl LayoutMismatch)"

section \<open>B+ tree: meta page\<close>

definition LoadMetaPage :: "BPlusTree \<Rightarrow> error + BPlusTree" where
  "LoadMetaPage t =
     (if GetNumPages (disk_manager (buffer_pool_manager t)) > 0 then
        (case tree_fetch META_PAGE_ID t of
           Inl e \<Rightarrow> Inl e
         | Inr (None, t1) \<Rightarrow> Inr t1
         | Inr (Some meta, t1) \<Rightarrow>
             (case meta_root (frame_data meta t1) of
                Inl e \<Rightarrow> Inl e
              | Inr r \<Rightarrow> Inr (tree_unpin META_PAGE_ID False (t1\<lparr>root_page_id := r\<rparr>))))
      else Inr t)"

definition UpdateMetaPage :: "BPlusTree \<Rightarrow> error + BPlusTree" where
  "UpdateMetaPage t =
     (case tree_fetch META_PAGE_ID t of
        Inl e \<Rightarrow> Inl e
      | Inr (None, t1) \<Rightarrow> Inr t1
      | Inr (Some meta, t1) \<Rightarrow>
          (case set_meta_root (root_page_id t1) (frame_data meta t1) of
             Inl e \<Rightarrow> Inl e
           | Inr pg \<Rightarrow> Inr (tree_unpin META_PAGE_ID True (set_frame_data meta pg t1))))"

definition NewBPlusTree :: "BufferPoolManager \<Rightarrow> error + BPlusTree" where
  "NewBPlusTree bp = LoadMetaPage \<lparr>buffer_pool_manager = bp, root_page_id = INVALID_PAGE_ID\<rparr>"


section \<open>B+ tree: search\<close>

text \<open>
  The descent of \<open>FindLeafPage\<close> follows child pointers for as long as the page is an
  internal node; the first argument bounds the number of iterations, and running out of it
  is the error \<open>OutOfFuel\<close>.
\<close>

fun FindLeafPage_loop :: "nat \<Rightarrow> int \<Rightarrow> nat \<Rightarrow> BPlusTree \<Rightarrow> error + (nat option \<times> BPlusTree)" where
  "FindLeafPage_loop 0 k page t = Inl OutOfFuel"
| "FindLeafPage_loop (Suc n) k page t =
     (case page_type_of (frame_data page t) of
        Inl e \<Rightarrow> Inl e
      | Inr ty \<Rightarrow>
          if ty = INTERNAL then
            (case as_internal (frame_data page t) of
               Inl e \<Rightarrow> Inl e
             | Inr (p, ks, cs) \<Rightarrow>
                 (case InternalFindChild ks cs k of
                    Inl e \<Rightarrow> Inl e
                  | Inr child_page_id \<Rightarrow>
                      (case tree_fetch child_page_id (tree_unpin (frame_page_id page t) False t) of
                         Inl e \<Rightarrow> Inl e
                       | Inr (None, t1) \<Rightarrow> Inr (None, t1)
                       | Inr (Some page', t1) \<Rightarrow> FindLeafPage_loop n k page' t1)))
          else Inr (Some page, t))"

definition FindLeafPage :: "nat \<Rightarrow> int \<Rightarrow> BPlusTree \<Rightarrow> error + (nat option \<times> BPlusTree)" where
  "FindLeafPage fuel k t =
     (if root_page_id t = INVALID_PAGE_ID then Inr (None, t)
      else (case tree_fetch (root_page_id t) t of
              Inl e \<Rightarrow> Inl e
            | Inr (None, t1) \<Rightarrow> Inr (None, t1)
            | Inr (Some page, t1) \<Rightarrow> FindLeafPage_loop fuel k page t1))"

definition Search :: "nat \<Rightarrow> int \<Rightarrow> BPlusTree \<Rightarrow> error + (char list option \<times> BPlusTree)" where
  "Search fuel k t =
     (case FindLeafPage fuel k t of
        Inl e \<Rightarrow> Inl e
      | Inr (None, t1) \<Rightarrow> Inr (None, t1)
      | Inr (Some leaf, t1) \<Rightarrow>
          (case as_leaf (frame_data leaf t1) of
             Inl e \<Rightarrow> Inl e
           | Inr (p, nxt, es) \<Rightarrow>
               (let idx = LeafFindKey es k;
                    result = (if idx < length es \<and> key (es ! idx) = k
                                 \<and> value_present (value_bytes (es ! idx))
                              then Some (c_string (value_bytes (es ! idx))) else None)
                in Inr (result, tree_unpin (frame_page_id leaf t1) False t1))))"

section \<open>B+ tree: insert\<close>

text \<open>
  A frame that the source dereferences without a null check (\<open>NewPage\<close> in \<open>CreateNewRoot\<close>,
  \<open>SplitLeaf\<close>, \<open>SplitInternal\<close> and for the first root, \<open>FetchPage\<close> of the parent and of the
  children moved by an internal split) yields \<open>NullDeref\<close> when it is null.
\<close>

definition CreateNewRoot :: "nat \<Rightarrow> int \<Rightarrow> nat \<Rightarrow> BPlusTree \<Rightarrow> error + BPlusTree" where
  "CreateNewRoot left_page k right_page t =
     (case tree_new_page t of
        Inl e \<Rightarrow> Inl e
      | Inr (None, t1) \<Rightarrow> Inl NullDeref
      | Inr (Some (new_root, new_root_id), t1) \<Rightarrow>
          (let t2 = set_frame_data new_root
                      (InternalPage INVALID_PAGE_ID [k]
                         [frame_page_id left_page t1, frame_page_id right_page t1]) t1
           in (case set_parent new_root_id (frame_data left_page t2) of
                 Inl e \<Rightarrow> Inl e
               | Inr lpg \<Rightarrow>
                   (let t3 = set_frame_data left_page lpg t2
                    in (case set_parent new_root_id (frame_data right_page t3) of
                          Inl e \<Rightarrow> Inl e
                        | Inr rpg \<Rightarrow>
                            (let t4 = set_frame_data right_page rpg t3
                             in (case UpdateMetaPage (t4\<lparr>root_page_id := new_root_id\<rparr>) of
                                   Inl e \<Rightarrow> Inl e
                                 | Inr t5 \<Rightarrow> Inr (tree_unpin new_root_id True t5))))))))"

text \<open>
  The loop of \<open>SplitInternal\<close> that rewrites the parent pointer of every child moved to the
  new page: fetch the child, overwrite its parent id, unpin it dirty.
\<close>

fun reparent_children :: "int list \<Rightarrow> int \<Rightarrow> BPlusTree \<Rightarrow> error + BPlusTree" where
  "reparent_children [] new_internal_id t = Inr t"
| "reparent_children (child_id # rest) new_internal_id t =
     (case tree_fetch child_id t of
        Inl e \<Rightarrow> Inl e
      | Inr (None, t1) \<Rightarrow> Inl NullDeref
      | Inr (Some child, t1) \<Rightarrow>
          (case set_parent new_internal_id (frame_data child t1) of
             Inl e \<Rightarrow> Inl e
           | Inr pg \<Rightarrow>
               reparent_children rest new_internal_id
                 (tree_unpin child_id True (set_frame_data child pg t1))))"

text \<open>
  \<open>InsertIntoParent\<close> and \<open>SplitInternal\<close> call each other along the chain of parent
  pointers. \<open>SplitInternal_body\<close> is the body of \<open>SplitInternal\<close> with its call of
  \<open>InsertIntoParent\<close> as a parameter; the first argument of \<open>InsertIntoParent\<close> bounds the
  depth of the mutual recursion.
\<close>

definition SplitInternal_body ::
  "(nat \<Rightarrow> int \<Rightarrow> nat \<Rightarrow> BPlusTree \<Rightarrow> error + BPlusTree)
     \<Rightarrow> nat \<Rightarrow> int \<Rightarrow> int \<Rightarrow> BPlusTree \<Rightarrow> error + BPlusTree" where
  "SplitInternal_body insert_into_parent internal_page k right_child_id t =
     (case as_internal (frame_data internal_page t) of
        Inl e \<Rightarrow> Inl e
      | Inr (old_parent, old_keys, old_children) \<Rightarrow>
          (let idx = internal_insert_index old_keys k;
               temp_keys = take idx old_keys @ [k] @ drop idx old_keys;
               temp_children = take (Suc idx) old_children @ [right_child_id]
                                 @ drop (Suc idx) old_children;
               total_keys = length temp_keys;
               split = total_keys div 2;
               middle_key = temp_keys ! split
           in (case tree_new_page t of
                 Inl e \<Rightarrow> Inl e
               | Inr (None, t1) \<Rightarrow> Inl NullDeref
               | Inr (Some (new_internal, new_internal_id), t1) \<Rightarrow>
                   (let t2 = set_frame_data internal_page
                               (InternalPage old_parent (take split temp_keys)
                                  (take (Suc split) temp_children)) t1;
                        new_children = drop (Suc split) temp_children;
                        t3 = set_frame_data new_internal
                               (InternalPage old_parent (drop (Suc split) temp_keys)
                                  new_children) t2
                    in (case reparent_children new_children new_internal_id t3 of
                          Inl e \<Rightarrow> Inl e
                        | Inr t4 \<Rightarrow>
                            (case insert_into_parent internal_page middle_key new_internal t4 of
                               Inl e \<Rightarrow> Inl e
                             | Inr t5 \<Rightarrow> Inr (tree_unpin new_internal_id True t5)))))))"

primrec InsertIntoParent :: "nat \<Rightarrow> nat \<Rightarrow> int \<Rightarrow> nat \<Rightarrow> BPlusTree \<Rightarrow> error + BPlusTree" where
  "InsertIntoParent 0 left_page k right_page t = Inl OutOfFuel"
| "InsertIntoParent (Suc n) left_page k right_page t =
     (case parent_of (frame_data left_page t) of
        Inl e \<Rightarrow> Inl e
      | Inr left_parent \<Rightarrow>
          if left_parent = INVALID_PAGE_ID then CreateNewRoot left_page k right_page t
          else
            (case tree_fetch left_parent t of
               Inl e \<Rightarrow> Inl e
             | Inr (None, t1) \<Rightarrow> Inl NullDeref
             | Inr (Some parent, t1) \<Rightarrow>
                 (case as_internal (frame_data parent t1) of
                    Inl e \<Rightarrow> Inl e
                  | Inr (pp, pks, pcs) \<Rightarrow>
                      (case set_parent (frame_page_id parent t1) (frame_data right_page t1) of
                         Inl e \<Rightarrow> Inl e
                       | Inr rpg \<Rightarrow>
                           (let t2 = set_frame_data right_page rpg t1 in
                            if length pks < INTERNAL_MAX_KEYS then
                              (case InternalInsert parent k (frame_page_id right_page t2) t2 of
                                 Inl e \<Rightarrow> Inl e
                               | Inr t3 \<Rightarrow> Inr (tree_unpin (frame_page_id parent t3) True t3))
                            else
                              (case SplitInternal_body (InsertIntoParent n) parent k
                                      (frame_page_id right_page t2) t2 of
                                 Inl e \<Rightarrow> Inl e
                               | Inr t3 \<Rightarrow> Inr (tree_unpin (frame_page_id parent t3) True t3)))))))"

definition SplitInternal :: "nat \<Rightarrow> nat \<Rightarrow> int \<Rightarrow> int \<Rightarrow> BPlusTree \<Rightarrow> error + BPlusTree" where
  "SplitInternal n = SplitInternal_body (InsertIntoParent n)"

definition SplitLeaf :: "nat \<Rightarrow> nat \<Rightarrow> int \<Rightarrow> char list \<Rightarrow> BPlusTree \<Rightarrow> error + BPlusTree" where
  "SplitLeaf fuel leaf_page k v t =
     (case as_leaf (frame_data leaf_page t) of
        Inl e \<Rightarrow> Inl e
      | Inr (old_parent, old_next, old_entries) \<Rightarrow>
          (let idx = LeafFindKey old_entries k;
               temp = take idx old_entries @ [\<lparr>key = k, value_bytes = store_value v\<rparr>]
                        @ drop idx old_entries;
               total = length temp
           in (case tree_new_page t of
                 Inl e \<Rightarrow> Inl e
               | Inr (None, t1) \<Rightarrow> Inl NullDeref
               | Inr (Some (new_leaf, new_leaf_id), t1) \<Rightarrow>
                   (let split = total div 2;
                        t2 = set_frame_data leaf_page
                               (put_leaf (frame_data leaf_page t1) old_parent new_leaf_id
                                  (take split temp)) t1;
                        new_entries = drop split temp;
                        t3 = set_frame_data new_leaf
                               (LeafPage old_parent old_next new_entries) t2;
                        middle_key = key (new_entries ! 0)
                    in (case InsertIntoParent fuel leaf_page middle_key new_leaf t3 of
                          Inl e \<Rightarrow> Inl e
                        | Inr t4 \<Rightarrow> Inr (tree_unpin new_leaf_id True t4))))))"

definition Insert :: "nat \<Rightarrow> int \<Rightarrow> char list \<Rightarrow> BPlusTree \<Rightarrow> error + (bool \<times> BPlusTree)" where
  "Insert fuel k v t =
     (if root_page_id t = INVALID_PAGE_ID then
        (case tree_new_page t of
           Inl e \<Rightarrow> Inl e
         | Inr (meta, t0) \<Rightarrow>
             (let t1 = (case meta of
                          None \<Rightarrow> t0
                        | Some (meta_page, meta_id) \<Rightarrow>
                            tree_unpin meta_id True (set_frame_data meta_page Zeroed t0))
              in (case tree_new_page t1 of
                    Inl e \<Rightarrow> Inl e
                  | Inr (None, t2) \<Rightarrow> Inl NullDeref
                  | Inr (Some (root, root_id), t2) \<Rightarrow>
                      (let t3 = set_frame_data root
                                  (LeafPage INVALID_PAGE_ID INVALID_PAGE_ID [])
                                  (t2\<lparr>root_page_id := root_id\<rparr>)
                       in (case LeafInsert root k v t3 of
                             Inl e \<Rightarrow> Inl e
                           | Inr (b, t4) \<Rightarrow>
                               (case UpdateMetaPage t4 of
                                  Inl e \<Rightarrow> Inl e
                                | Inr t5 \<Rightarrow>
                                    Inr (True, tree_unpin (root_page_id t5) True t5)))))))
      else
        (case FindLeafPage fuel k t of
           Inl e \<Rightarrow> Inl e
         | Inr (None, t1) \<Rightarrow> Inr (False, t1)
         | Inr (Some leaf, t1) \<Rightarrow>
             (case as_leaf (frame_data leaf t1) of
                Inl e \<Rightarrow> Inl e
              | Inr (p, nxt, es) \<Rightarrow>
                  if length es < LEAF_MAX_ENTRIES then
                    (case LeafInsert leaf k v t1 of
                       Inl e \<Rightarrow> Inl e
                     | Inr (b, t2) \<Rightarrow> Inr (True, tree_unpin (frame_page_id leaf t2) True t2))
                  else
                    (case SplitLeaf fuel leaf k v t1 of
                       Inl e \<Rightarrow> Inl e
                     | Inr t2 \<Rightarrow> Inr (True, tree_unpin (frame_page_id leaf t2) True t2)))))"

section \<open>B+ tree: remove and range scan\<close>

definition Remove :: "nat \<Rightarrow> int \<Rightarrow> BPlusTree \<Rightarrow> error + (bool \<times> BPlusTree)" where
  "Remove fuel k t =
     (if root_page_id t = INVALID_PAGE_ID then Inr (False, t)
      else
        (case FindLeafPage fuel k t of
           Inl e \<Rightarrow> Inl e
         | Inr (None, t1) \<Rightarrow> Inr (False, t1)
         | Inr (Some leaf, t1) \<Rightarrow>
             (case as_leaf (frame_data leaf t1) of
                Inl e \<Rightarrow> Inl e
              | Inr (p, nxt, es) \<Rightarrow>
                  (let idx = LeafFindKey es k in
                   if idx \<ge> length es \<or> key (es ! idx) \<noteq> k
                   then Inr (False, tree_unpin (frame_page_id leaf t1) False t1)
                   else
                     (let t2 = set_frame_data leaf
                                 (put_leaf (frame_data leaf t1) p nxt
                                    (es[idx := (es ! idx)\<lparr>value_bytes := zero_value\<rparr>])) t1
                      in Inr (True, tree_unpin (frame_page_id leaf t2) True t2))))))"

text \<open>
  The inner loop of \<open>Scan\<close> over the entries of one leaf from the starting index on. The flag
  tells whether a key greater than \<open>end_key\<close> was met, in which case the scan returns.
\<close>

fun scan_entries ::
  "LeafEntry list \<Rightarrow> int \<Rightarrow> int \<Rightarrow> (int \<times> char list) list \<Rightarrow> bool \<times> (int \<times> char list) list" where
  "scan_entries [] start_key end_key results = (False, results)"
| "scan_entries (e # es) start_key end_key results =
     (if key e > end_key then (True, results)
      else scan_entries es start_key end_key
             (if key e \<ge> start_key \<and> value_present (value_bytes e)
              then results @ [(key e, c_string (value_bytes e))] else results))"

text \<open>
  One iteration of the outer loop of \<open>Scan\<close> on a pinned leaf: either the scan is over, or
  the next leaf has been fetched.
\<close>

definition Scan_leaf ::
  "nat \<Rightarrow> int \<Rightarrow> int \<Rightarrow> (int \<times> char list) list \<Rightarrow> BPlusTree
     \<Rightarrow> error + ((int \<times> char list) list \<times> nat option \<times> BPlusTree)" where
  "Scan_leaf leaf start_key end_key results t =
     (case as_leaf (frame_data leaf t) of
        Inl e \<Rightarrow> Inl e
      | Inr (p, next_page_id, es) \<Rightarrow>
          (let start_idx = (if results = [] then LeafFindKey es start_key else 0) in
           (case scan_entries (drop start_idx es) start_key end_key results of
              (True, results') \<Rightarrow>
                Inr (results', None, tree_unpin (frame_page_id leaf t) False t)
            | (False, results') \<Rightarrow>
                (let t1 = tree_unpin (frame_page_id leaf t) False t in
                 if next_page_id = INVALID_PAGE_ID then Inr (results', None, t1)
                 else (case tree_fetch next_page_id t1 of
                         Inl e \<Rightarrow> Inl e
                       | Inr (r, t2) \<Rightarrow> Inr (results', r, t2))))))"

primrec Scan_loop ::
  "nat \<Rightarrow> nat \<Rightarrow> int \<Rightarrow> int \<Rightarrow> (int \<times> char list) list \<Rightarrow> BPlusTree
     \<Rightarrow> error + ((int \<times> char list) list \<times> BPlusTree)" where
  "Scan_loop 0 leaf start_key end_key results t = Inl OutOfFuel"
| "Scan_loop (Suc n) leaf start_key end_key results t =
     (case Scan_leaf leaf start_key end_key results t of
        Inl e \<Rightarrow> Inl e
      | Inr (results', None, t1) \<Rightarrow> Inr (results', t1)
      | Inr (results', Some leaf', t1) \<Rightarrow> Scan_loop n leaf' start_key end_key results' t1)"

definition Scan ::
  "nat \<Rightarrow> int \<Rightarrow> int \<Rightarrow> BPlusTree \<Rightarrow> error + ((int \<times> char list) list \<times> BPlusTree)" where
  "Scan fuel start_key end_key t =
     (if root_page_id t = INVALID_PAGE_ID then Inr ([], t)
      else
        (case FindLeafPage fuel start_key t of
           Inl e \<Rightarrow> Inl e
         | Inr (None, t1) \<Rightarrow> Inr ([], t1)
         | Inr (Some leaf, t1) \<Rightarrow> Scan_loop fuel leaf start_key end_key [] t1))"

section \<open>Opening, closing and running a store\<close>

text \<open>
  A store is opened as the test driver does: a disk manager on the file, a buffer pool on
  the disk manager, a tree on the buffer pool. Closing destroys them in reverse order: the
  tree flushes the meta page, the buffer pool flushes every dirty resident page; what is
  left is the file.
\<close>

definition OpenStore :: "nat \<Rightarrow> page_data list \<Rightarrow> error + BPlusTree" where
  "OpenStore n f = NewBPlusTree (NewBufferPoolManager n (OpenDisk f))"


datatype operation =
    OpInsert int "char list"
  | OpRemove int
  | OpSearch int
  | OpScan int int

datatype outcome =
    Flag bool
  | Found "char list option"
  | Pairs "(int \<times> char list) list"

fun run_op :: "nat \<Rightarrow> operation \<Rightarrow> BPlusTree \<Rightarrow> error + (outcome \<times> BPlusTree)" where
  "run_op fuel (OpInsert k v) t =
     (case Insert fuel k v t of Inl e \<Rightarrow> Inl e | Inr (b, t') \<Rightarrow> Inr (Flag b, t'))"
| "run_op fuel (OpRemove k) t =
     (case Remove fuel k t of Inl e \<Rightarrow> Inl e | Inr (b, t') \<Rightarrow> Inr (Flag b, t'))"
| "run_op fuel (OpSearch k) t =
     (case Search fuel k t of Inl e \<Rightarrow> Inl e | Inr (r, t') \<Rightarrow> Inr (Found r, t'))"
| "run_op fuel (OpScan a b) t =
     (case Scan fuel a b t of Inl e \<Rightarrow> Inl e | Inr (r, t') \<Rightarrow> Inr (Pairs r, t'))"

fun run_ops :: "nat \<Rightarrow> operation list \<Rightarrow> BPlusTree \<Rightarrow> error + (outcome list \<times> BPlusTree)" where
  "run_ops fuel [] t = Inr ([], t)"
| "run_ops fuel (x # xs) t =
     (case run_op fuel x t of
        Inl e \<Rightarrow> Inl e
      | Inr (r, t1) \<Rightarrow>
          (case run_ops fuel xs t1 of
             Inl e \<Rightarrow> Inl e
           | Inr (rs, t2) \<Rightarrow> Inr (r # rs, t2)))"

section \<open>Concrete stores used in the evaluations\<close>

text \<open>
  \<open>fresh_run n fuel ops\<close> opens a store with \<open>n\<close> frames on an empty file, runs the
  operations and returns their results; \<open>fresh_store\<close> returns the store that is left.
  \<open>leaf_store es\<close> is the store of the default configuration (64 frames) after the first
  inserts, while the tree is a single root leaf with entries \<open>es\<close>: page 0 is the meta page,
  page 1 the root leaf, both resident, dirty and unpinned.
\<close>

definition fresh_run :: "nat \<Rightarrow> nat \<Rightarrow> operation list \<Rightarrow> error + outcome list" where
  "fresh_run n fuel ops =
     (case OpenStore n [] of
        Inl e \<Rightarrow> Inl e
      | Inr t \<Rightarrow> (case run_ops fuel ops t of Inl e \<Rightarrow> Inl e | Inr (rs, t') \<Rightarrow> Inr rs))"

definition fresh_store :: "nat \<Rightarrow> nat \<Rightarrow> operation list \<Rightarrow> error + BPlusTree" where
  "fresh_store n fuel ops =
     (case OpenStore n [] of
        Inl e \<Rightarrow> Inl e
      | Inr t \<Rightarrow> (case run_ops fuel ops t of Inl e \<Rightarrow> Inl e | Inr (rs, t') \<Rightarrow> Inr t'))"

definition outcomes_from :: "nat \<Rightarrow> operation list \<Rightarrow> BPlusTree \<Rightarrow> error + outcome list" where
  "outcomes_from fuel ops t =
     (case run_ops fuel ops t of Inl e \<Rightarrow> Inl e | Inr (rs, t') \<Rightarrow> Inr rs)"

definition store_from :: "nat \<Rightarrow> operation list \<Rightarrow> BPlusTree \<Rightarrow> error + BPlusTree" where
  "store_from fuel ops t =
     (case run_ops fuel ops t of Inl e \<Rightarrow> Inl e | Inr (rs, t') \<Rightarrow> Inr t')"

definition inserts :: "int list \<Rightarrow> char list \<Rightarrow> operation list" where
  "inserts ks v = map (\<lambda>k. OpInsert k v) ks"

definition entry :: "int \<Rightarrow> char list \<Rightarrow> LeafEntry" where
  "entry k v = \<lparr>key = k, value_bytes = store_value v\<rparr>"

definition entries_of :: "int list \<Rightarrow> char list \<Rightarrow> LeafEntry list" where
  "entries_of ks v = map (\<lambda>k. entry k v) ks"

definition empty_frame :: Page where
  "empty_frame = \<lparr>page_id = - 1, data = Zeroed, is_dirty = False, pin_count = 0\<rparr>"

definition leaf_store :: "LeafEntry list \<Rightarrow> BPlusTree" where
  "leaf_store es =
     \<lparr>buffer_pool_manager =
        \<lparr>pool_size = 64, disk_manager = \<lparr>file_pages = [], num_pages = 2\<rparr>,
         pages = \<lparr>page_id = 0, data = MetaPage 1, is_dirty = True, pin_count = 0\<rparr>
               # \<lparr>page_id = 1, data = LeafPage (- 1) (- 1) es, is_dirty = True, pin_count = 0\<rparr>
               # replicate 62 empty_frame,
         page_table = [(0, 0), (1, 1)], free_list = [2..<64], lru_list = [1, 0]\<rparr>,
      root_page_id = 1\<rparr>"

definition keys30 :: "int list" where
  "keys30 = [0, 1, 2, 3, 4, 5, 6, 7, 8, 9, 10, 11, 12, 13, 14, 15, 16, 17, 18, 19,
             20, 21, 22, 23, 24, 25, 26, 27, 28, 29]"

definition keys29 :: "int list" where
  "keys29 = [0, 1, 2, 3, 4, 5, 6, 7, 8, 9, 10, 11, 12, 13, 15, 16, 17, 18, 19,
             20, 21, 22, 23, 24, 25, 26, 27, 28, 29]"

text \<open>The keys of the leaf page \<open>pid\<close> when it is resident in the buffer pool.\<close>

definition resident_leaf_keys :: "int \<Rightarrow> error + BPlusTree \<Rightarrow> int list option" where
  "resident_leaf_keys pid r =
     (case r of
        Inl e \<Rightarrow> None
      | Inr t \<Rightarrow>
          (case map_of (page_table (buffer_pool_manager t)) pid of
             None \<Rightarrow> None
           | Some f \<Rightarrow>
               (case frame_data f t of
                  LeafPage p n es \<Rightarrow> Some (map key es)
                | pg \<Rightarrow> None)))"

definition frame_of :: "BufferPoolManager \<Rightarrow> int \<Rightarrow> nat option" where
  "frame_of bp = map_of (page_table bp)"

definition resident_frames :: "BufferPoolManager \<Rightarrow> nat set" where
  "resident_frames bp = snd ` set (page_table bp)"

definition bp_inv :: "BufferPoolManager \<Rightarrow> bool" where
  "bp_inv bp =
     (length (pages bp) = pool_size bp \<and>
      length (file_pages (disk_manager bp)) \<le> num_pages (disk_manager bp) \<and>
      distinct (map fst (page_table bp)) \<and>
      (\<forall>(p, f) \<in> set (page_table bp).
         f < pool_size bp \<and> page_id (pages bp ! f) = p \<and> 0 \<le> p \<and>
         p < int (num_pages (disk_manager bp)) \<and> 0 \<le> pin_count (pages bp ! f) \<and>
         (\<forall>(q, g) \<in> set (page_table bp). g = f \<longrightarrow> q = p)) \<and>
      distinct (free_list bp) \<and>
      (\<forall>f \<in> set [0..<pool_size bp]. (f \<in> set (free_list bp)) = (f \<notin> resident_frames bp)) \<and>
      (\<forall>f \<in> set (free_list bp). f < pool_size bp \<and> page_id (pages bp ! f) = - 1) \<and>
      distinct (lru_list bp) \<and>
      (\<forall>f \<in> set (lru_list bp). f \<in> resident_frames bp \<and> pin_count (pages bp ! f) = 0) \<and>
      (\<forall>f \<in> resident_frames bp. pin_count (pages bp ! f) = 0 \<longrightarrow> f \<in> set (lru_list bp)))"

definition disk_read :: "DiskManager \<Rightarrow> int \<Rightarrow> page_data" where
  "disk_read d p = (if nat p < length (file_pages d) then file_pages d ! nat p else Zeroed)"

definition pin_of :: "BufferPoolManager \<Rightarrow> int \<Rightarrow> int" where
  "pin_of bp p = (case frame_of bp p of None \<Rightarrow> 0 | Some f \<Rightarrow> pin_count (pages bp ! f))"

definition view :: "BufferPoolManager \<Rightarrow> int \<Rightarrow> page_data" where
  "view bp p = (case frame_of bp p of None \<Rightarrow> disk_read (disk_manager bp) p
                | Some f \<Rightarrow> data (pages bp ! f))"

definition coherent :: "int set \<Rightarrow> BufferPoolManager \<Rightarrow> bool" where
  "coherent W bp =
     (\<forall>p f. frame_of bp p = Some f \<longrightarrow> p \<notin> W \<longrightarrow>
        is_dirty (pages bp ! f) \<or> data (pages bp ! f) = disk_read (disk_manager bp) p)"

definition vacated :: "nat \<Rightarrow> BufferPoolManager \<Rightarrow> BufferPoolManager \<Rightarrow> bool" where
  "vacated f bp bp2 =
     (f < pool_size bp \<and> pool_size bp2 = pool_size bp \<and> pages bp2 = pages bp \<and>
      num_pages (disk_manager bp2) = num_pages (disk_manager bp) \<and>
      length (file_pages (disk_manager bp2)) \<le> num_pages (disk_manager bp) \<and>
      distinct (map fst (page_table bp2)) \<and>
      (\<forall>p. frame_of bp2 p = (if frame_of bp p = Some f then None else frame_of bp p)) \<and>
      distinct (free_list bp2) \<and> set (free_list bp2) = set (free_list bp) - {f} \<and>
      distinct (lru_list bp2) \<and> set (lru_list bp2) = set (lru_list bp) - {f} \<and>
      (\<forall>p. frame_of bp p = Some f \<longrightarrow>
         pin_count (pages bp ! f) = 0 \<and>
         (if is_dirty (pages bp ! f)
          then WritePage p (data (pages bp ! f)) (disk_manager bp) = Inr (disk_manager bp2)
          else disk_manager bp2 = disk_manager bp)) \<and>
      ((\<forall>p. frame_of bp p \<noteq> Some f) \<longrightarrow> disk_manager bp2 = disk_manager bp))"

definition installed ::
  "nat \<Rightarrow> int \<Rightarrow> page_data \<Rightarrow> DiskManager \<Rightarrow> BufferPoolManager \<Rightarrow> BufferPoolManager" where
  "installed f p dt d3 bp2 =
     bp2\<lparr>disk_manager := d3,
         pages := (pages bp2)[f := \<lparr>page_id = p, data = dt, is_dirty = False, pin_count = 1\<rparr>],
         page_table := AList.update p f (page_table bp2)\<rparr>"

definition pinned_more :: "nat \<Rightarrow> BufferPoolManager \<Rightarrow> BufferPoolManager" where
  "pinned_more f bp =
     bp\<lparr>pages := (pages bp)[f := (pages bp ! f)\<lparr>pin_count := pin_count (pages bp ! f) + 1\<rparr>],
        lru_list := remove1 f (lru_list bp)\<rparr>"

definition victim_of :: "BufferPoolManager \<Rightarrow> nat option" where
  "victim_of bp =
     (if free_list bp \<noteq> [] then Some (hd (free_list bp))
      else find (\<lambda>f. pin_count (pages bp ! f) = 0) (rev (lru_list bp)))"

definition all_pages :: "(page_data \<Rightarrow> bool) \<Rightarrow> BufferPoolManager \<Rightarrow> bool" where
  "all_pages P bp =
     ((\<forall>pg \<in> set (pages bp). P (data pg)) \<and> (\<forall>pg \<in> set (file_pages (disk_manager bp)). P pg))"

definition bp_keeps :: "BufferPoolManager \<Rightarrow> BufferPoolManager \<Rightarrow> bool" where
  "bp_keeps bp bp' =
     (bp_inv bp' \<and> pool_size bp' = pool_size bp \<and>
      num_pages (disk_manager bp) \<le> num_pages (disk_manager bp') \<and>
      (\<forall>q g. frame_of bp q = Some g \<longrightarrow> 0 < pin_count (pages bp ! g) \<longrightarrow>
         frame_of bp' q = Some g \<and> data (pages bp' ! g) = data (pages bp ! g)))"

definition unpinned :: "nat \<Rightarrow> bool \<Rightarrow> BufferPoolManager \<Rightarrow> BufferPoolManager" where
  "unpinned f dirty bp =
     bp\<lparr>pages := (pages bp)[f := (pages bp ! f)\<lparr>pin_count := pin_count (pages bp ! f) - 1,
                                                is_dirty := dirty \<or> is_dirty (pages bp ! f)\<rparr>],
        lru_list := (if pin_count (pages bp ! f) = 1 then f # lru_list bp else lru_list bp)\<rparr>"

text \<open>
  Validity of the page ids stored in a page image, relative to the number of allocated
  pages: a parent, sibling or root id is \<open>- 1\<close> or an allocated page, a child id is an
  allocated page.
\<close>

definition ptr_ok :: "nat \<Rightarrow> int \<Rightarrow> bool" where
  "ptr_ok n p = (p = - 1 \<or> (0 \<le> p \<and> p < int n))"

fun ids_ok :: "nat \<Rightarrow> page_data \<Rightarrow> bool" where
  "ids_ok n Zeroed = True"
| "ids_ok n (MetaPage r) = ptr_ok n r"
| "ids_ok n (LeafPage p nxt es) = (ptr_ok n p \<and> ptr_ok n nxt)"
| "ids_ok n (UntypedLeaf p nxt es) = (ptr_ok n p \<and> ptr_ok n nxt)"
| "ids_ok n (InternalPage p ks cs) = (ptr_ok n p \<and> (\<forall>c \<in> set cs. 0 \<le> c \<and> c < int n))"

abbreviation tpool :: "BPlusTree \<Rightarrow> BufferPoolManager" where
  "tpool t \<equiv> buffer_pool_manager t"

definition tnum :: "BPlusTree \<Rightarrow> nat" where
  "tnum t = num_pages (disk_manager (buffer_pool_manager t))"

definition tinv :: "BPlusTree \<Rightarrow> bool" where
  "tinv t =
     (bp_inv (buffer_pool_manager t) \<and>
      all_pages (ids_ok (tnum t)) (buffer_pool_manager t) \<and>
      ptr_ok (tnum t) (root_page_id t))"

definition holds :: "BPlusTree \<Rightarrow> nat \<Rightarrow> int \<Rightarrow> bool" where
  "holds t f p =
     (frame_of (buffer_pool_manager t) p = Some f \<and> 0 < pin_of (buffer_pool_manager t) p)"

definition unpinned_coherent :: "BPlusTree \<Rightarrow> bool" where
  "unpinned_coherent t =
     coherent {q. 0 < pin_of (buffer_pool_manager t) q} (buffer_pool_manager t)"

definition quiescent :: "BPlusTree \<Rightarrow> bool" where
  "quiescent t =
     (tinv t \<and> (\<forall>pg \<in> set (page_table (buffer_pool_manager t)).
                  pin_count (pages (buffer_pool_manager t) ! snd pg) = 0) \<and>
      coherent {} (buffer_pool_manager t))"

definition bump :: "int \<Rightarrow> int \<Rightarrow> (int \<Rightarrow> int) \<Rightarrow> (int \<Rightarrow> int)" where
  "bump p d P = P(p := P p + d)"













definition root_kept :: "BPlusTree \<Rightarrow> BPlusTree \<Rightarrow> bool" where
  "root_kept t t' = (root_page_id t' = root_page_id t \<or> 0 \<le> root_page_id t')"

fun zero_first :: "int \<Rightarrow> LeafEntry list \<Rightarrow> LeafEntry list" where
  "zero_first k [] = []"
| "zero_first k (e # es) =
     (if key e = k then e\<lparr>value_bytes := zero_value\<rparr> # es else e # zero_first k es)"

definition tomb_store :: BPlusTree where
  "tomb_store =
     \<lparr>buffer_pool_manager =
        \<lparr>pool_size = 2, disk_manager = \<lparr>file_pages = [], num_pages = 2\<rparr>,
         pages = [\<lparr>page_id = 0, data = MetaPage 1, is_dirty = True, pin_count = 0\<rparr>,
                  \<lparr>page_id = 1, data = LeafPage (- 1) (- 1) [\<lparr>key = 1, value_bytes = zero_value\<rparr>],
                   is_dirty = True, pin_count = 0\<rparr>],
         page_table = [(0, 0), (1, 1)], free_list = [], lru_list = [1, 0]\<rparr>,
      root_page_id = 1\<rparr>"

definition tomb_pinned :: BPlusTree where
  "tomb_pinned =
     \<lparr>buffer_pool_manager =
        \<lparr>pool_size = 2, disk_manager = \<lparr>file_pages = [], num_pages = 2\<rparr>,
         pages = [\<lparr>page_id = 0, data = MetaPage 1, is_dirty = True, pin_count = 0\<rparr>,
                  \<lparr>page_id = 1, data = LeafPage (- 1) (- 1) [\<lparr>key = 1, value_bytes = zero_value\<rparr>],
                   is_dirty = True, pin_count = 1\<rparr>],
         page_table = [(0, 0), (1, 1)], free_list = [], lru_list = [0]\<rparr>,
      root_page_id = 1\<rparr>"







section \<open>Lemma library\<close>

text \<open>
  From here on the file holds proofs only: first the lemmas about the buffer pool and the
  tree operations, then the evaluations of concrete runs, then the claims.
\<close>

lemma frame_of_iff:
  "distinct (map fst (page_table bp)) \<Longrightarrow> (frame_of bp p = Some f) = ((p, f) \<in> set (page_table bp))"
  by (simp add: frame_of_def)

lemma resident_iff:
  "distinct (map fst (page_table bp)) \<Longrightarrow> (f \<in> resident_frames bp) = (\<exists>p. frame_of bp p = Some f)"
  by (force simp: resident_frames_def frame_of_iff)

lemma bp_inv_distinct: "bp_inv bp \<Longrightarrow> distinct (map fst (page_table bp))"
  by (simp add: bp_inv_def)

lemma bp_inv_length: "bp_inv bp \<Longrightarrow> length (pages bp) = pool_size bp"
  by (simp add: bp_inv_def)

lemma bp_inv_file: "bp_inv bp \<Longrightarrow> length (file_pages (disk_manager bp)) \<le> num_pages (disk_manager bp)"
  by (simp add: bp_inv_def)

lemma bp_inv_frame:
  assumes "bp_inv bp" "frame_of bp p = Some f"
  shows "f < pool_size bp" "page_id (pages bp ! f) = p" "0 \<le> p"
    "p < int (num_pages (disk_manager bp))" "0 \<le> pin_count (pages bp ! f)"
proof -
  have "(p, f) \<in> set (page_table bp)"
    using assms by (simp add: frame_of_iff bp_inv_distinct)
  moreover have "\<forall>(p, f) \<in> set (page_table bp).
         f < pool_size bp \<and> page_id (pages bp ! f) = p \<and> 0 \<le> p \<and>
         p < int (num_pages (disk_manager bp)) \<and> 0 \<le> pin_count (pages bp ! f) \<and>
         (\<forall>(q, g) \<in> set (page_table bp). g = f \<longrightarrow> q = p)"
    using assms(1) by (simp add: bp_inv_def)
  ultimately have "f < pool_size bp \<and> page_id (pages bp ! f) = p \<and> 0 \<le> p \<and>
         p < int (num_pages (disk_manager bp)) \<and> 0 \<le> pin_count (pages bp ! f)"
    by blast
  then show "f < pool_size bp" "page_id (pages bp ! f) = p" "0 \<le> p"
    "p < int (num_pages (disk_manager bp))" "0 \<le> pin_count (pages bp ! f)" by simp_all
qed

lemma bp_inv_inj:
  assumes "bp_inv bp" "frame_of bp p = Some f" "frame_of bp q = Some f"
  shows "q = p"
  using assms(1) assms(2)[THEN bp_inv_frame(2)[OF assms(1)]] assms(3)[THEN bp_inv_frame(2)[OF assms(1)]]
  by simp

lemma bp_inv_resident:
  "bp_inv bp \<Longrightarrow> (f \<in> resident_frames bp) = (\<exists>p. frame_of bp p = Some f)"
  by (simp add: resident_iff bp_inv_distinct)

lemma bp_inv_free:
  assumes "bp_inv bp"
  shows "(f \<in> set (free_list bp)) = (f < pool_size bp \<and> (\<forall>p. frame_of bp p \<noteq> Some f))"
proof -
  have a: "\<forall>f \<in> set [0..<pool_size bp]. (f \<in> set (free_list bp)) = (f \<notin> resident_frames bp)"
    and b: "\<forall>f \<in> set (free_list bp). f < pool_size bp \<and> page_id (pages bp ! f) = - 1"
    using assms by (simp_all add: bp_inv_def)
  show ?thesis
  proof (cases "f < pool_size bp")
    case True
    then show ?thesis using a by (simp add: bp_inv_resident[OF assms])
  next
    case False
    then show ?thesis using b by auto
  qed
qed

lemma bp_inv_free_page_id:
  "bp_inv bp \<Longrightarrow> f \<in> set (free_list bp) \<Longrightarrow> page_id (pages bp ! f) = - 1"
  by (simp add: bp_inv_def)

lemma bp_inv_distinct_free: "bp_inv bp \<Longrightarrow> distinct (free_list bp)"
  by (simp add: bp_inv_def)

lemma bp_inv_distinct_lru: "bp_inv bp \<Longrightarrow> distinct (lru_list bp)"
  by (simp add: bp_inv_def)

lemma bp_inv_lru:
  assumes "bp_inv bp"
  shows "(f \<in> set (lru_list bp)) = ((\<exists>p. frame_of bp p = Some f) \<and> pin_count (pages bp ! f) = 0)"
proof -
  have a: "\<forall>f \<in> set (lru_list bp). f \<in> resident_frames bp \<and> pin_count (pages bp ! f) = 0"
    and b: "\<forall>f \<in> resident_frames bp. pin_count (pages bp ! f) = 0 \<longrightarrow> f \<in> set (lru_list bp)"
    using assms by (simp_all add: bp_inv_def)
  have r: "\<And>g. (g \<in> resident_frames bp) = (\<exists>p. frame_of bp p = Some g)"
    by (rule bp_inv_resident[OF assms])
  show ?thesis
  proof
    assume "f \<in> set (lru_list bp)"
    with a show "(\<exists>p. frame_of bp p = Some f) \<and> pin_count (pages bp ! f) = 0"
      by (simp add: r)
  next
    assume "(\<exists>p. frame_of bp p = Some f) \<and> pin_count (pages bp ! f) = 0"
    with b show "f \<in> set (lru_list bp)" by (simp add: r)
  qed
qed

lemma bp_invI:
  assumes "length (pages bp) = pool_size bp"
    and "length (file_pages (disk_manager bp)) \<le> num_pages (disk_manager bp)"
    and d: "distinct (map fst (page_table bp))"
    and fr: "\<And>p f. frame_of bp p = Some f \<Longrightarrow>
         f < pool_size bp \<and> page_id (pages bp ! f) = p \<and> 0 \<le> p \<and>
         p < int (num_pages (disk_manager bp)) \<and> 0 \<le> pin_count (pages bp ! f)"
    and "distinct (free_list bp)"
    and free: "\<And>f. (f \<in> set (free_list bp)) = (f < pool_size bp \<and> (\<forall>p. frame_of bp p \<noteq> Some f))"
    and fpid: "\<And>f. f \<in> set (free_list bp) \<Longrightarrow> page_id (pages bp ! f) = - 1"
    and "distinct (lru_list bp)"
    and lru: "\<And>f. (f \<in> set (lru_list bp)) = ((\<exists>p. frame_of bp p = Some f) \<and> pin_count (pages bp ! f) = 0)"
  shows "bp_inv bp"
proof -
  note fi = frame_of_iff[OF d] and ri = resident_iff[OF d]
  have 1: "\<forall>(p, f) \<in> set (page_table bp).
         f < pool_size bp \<and> page_id (pages bp ! f) = p \<and> 0 \<le> p \<and>
         p < int (num_pages (disk_manager bp)) \<and> 0 \<le> pin_count (pages bp ! f) \<and>
         (\<forall>(q, g) \<in> set (page_table bp). g = f \<longrightarrow> q = p)"
  proof -
    have "f < pool_size bp \<and> page_id (pages bp ! f) = p \<and> 0 \<le> p \<and>
         p < int (num_pages (disk_manager bp)) \<and> 0 \<le> pin_count (pages bp ! f) \<and>
         (\<forall>(q, g) \<in> set (page_table bp). g = f \<longrightarrow> q = p)"
      if m: "(p, f) \<in> set (page_table bp)" for p f
    proof -
      have s: "frame_of bp p = Some f" using m by (simp add: fi)
      have "q = p" if "(q, f) \<in> set (page_table bp)" for q
      proof -
        have "frame_of bp q = Some f" using that by (simp add: fi)
        from fr[OF this] fr[OF s] show "q = p" by simp
      qed
      then have "\<forall>(q, g) \<in> set (page_table bp). g = f \<longrightarrow> q = p" by fast
      with fr[OF s] show ?thesis by simp
    qed
    then show ?thesis by fast
  qed
  have 2: "\<forall>f \<in> set [0..<pool_size bp]. (f \<in> set (free_list bp)) = (f \<notin> resident_frames bp)"
  proof
    fix f assume "f \<in> set [0..<pool_size bp]"
    then have "f < pool_size bp" by simp
    then show "(f \<in> set (free_list bp)) = (f \<notin> resident_frames bp)"
      unfolding free[of f] ri[of f] by simp
  qed
  have 3: "\<forall>f \<in> set (free_list bp). f < pool_size bp \<and> page_id (pages bp ! f) = - 1"
  proof
    fix f assume m: "f \<in> set (free_list bp)"
    then have "f < pool_size bp" using free[of f] by simp
    with fpid[OF m] show "f < pool_size bp \<and> page_id (pages bp ! f) = - 1" by simp
  qed
  have 4: "\<forall>f \<in> set (lru_list bp). f \<in> resident_frames bp \<and> pin_count (pages bp ! f) = 0"
  proof
    fix f assume m: "f \<in> set (lru_list bp)"
    then show "f \<in> resident_frames bp \<and> pin_count (pages bp ! f) = 0"
      unfolding lru[of f] ri[of f] by simp
  qed
  have 5: "\<forall>f \<in> resident_frames bp. pin_count (pages bp ! f) = 0 \<longrightarrow> f \<in> set (lru_list bp)"
  proof
    fix f assume m: "f \<in> resident_frames bp"
    then show "pin_count (pages bp ! f) = 0 \<longrightarrow> f \<in> set (lru_list bp)"
      unfolding lru[of f] ri[of f] by simp
  qed
  show ?thesis
    unfolding bp_inv_def using assms(1,2,5,8) d 1 2 3 4 5 by simp
qed

lemma ReadPage_disk_read: "0 \<le> p \<Longrightarrow> ReadPage p d = Inr (disk_read d p)"
  by (simp add: ReadPage_def disk_read_def)

lemma WritePage_ok:
  assumes "0 \<le> p"
  obtains d' where "WritePage p pg d = Inr d'" "num_pages d' = num_pages d"
    "disk_read d' p = pg" "\<And>q. 0 \<le> q \<Longrightarrow> q \<noteq> p \<Longrightarrow> disk_read d' q = disk_read d q"
    "length (file_pages d') = max (length (file_pages d)) (Suc (nat p))"
proof -
  let ?f = "file_pages d @ replicate (Suc (nat p) - length (file_pages d)) Zeroed"
  let ?d = "d\<lparr>file_pages := ?f[nat p := pg]\<rparr>"
  have w: "WritePage p pg d = Inr ?d" using assms by (simp add: WritePage_def Let_def)
  have l: "length ?f = max (length (file_pages d)) (Suc (nat p))" by auto
  have "nat p < length ?f" using l by simp
  then have r: "disk_read ?d p = pg" by (simp add: disk_read_def)
  have o: "disk_read ?d q = disk_read d q" if "0 \<le> q" "q \<noteq> p" for q
  proof -
    have ne: "nat q \<noteq> nat p" using that assms by simp
    show ?thesis
    proof (cases "nat q < length (file_pages d)")
      case True
      then show ?thesis using ne by (simp add: disk_read_def nth_append)
    next
      case False
      show ?thesis
      proof (cases "nat q < length ?f")
        case True
        then have "nat q - length (file_pages d) < Suc (nat p) - length (file_pages d)"
          using False by simp
        then have "replicate (Suc (nat p) - length (file_pages d)) Zeroed !
            (nat q - length (file_pages d)) = Zeroed" by (rule nth_replicate)
        then show ?thesis using False True ne by (simp add: disk_read_def nth_append)
      next
        case F: False
        then show ?thesis using False by (simp add: disk_read_def)
      qed
    qed
  qed
  show ?thesis using that[OF w _ r o] l by simp
qed

lemma lru_scan_unpinned:
  "\<forall>f \<in> set lru. pin_count (pgs ! f) = 0 \<Longrightarrow>
   lru_scan pgs lru = (if lru = [] then (None, lru) else (Some (last lru), butlast lru))"
  by (subst lru_scan.simps) (simp add: Let_def)

lemma FindVictimPage_cases:
  assumes "bp_inv bp"
  shows "FindVictimPage bp =
     (if free_list bp \<noteq> [] then (hd (free_list bp), bp\<lparr>free_list := tl (free_list bp)\<rparr>)
      else if lru_list bp \<noteq> [] then (last (lru_list bp), bp\<lparr>lru_list := butlast (lru_list bp)\<rparr>)
      else (pool_size bp, bp))"
proof -
  have "\<forall>f \<in> set (lru_list bp). pin_count (pages bp ! f) = 0"
    using assms by (simp add: bp_inv_lru)
  from lru_scan_unpinned[OF this] show ?thesis
    by (simp add: FindVictimPage_def)
qed

lemma frame_of_delete:
  "map_of (AList.delete q al) p = (if p = q then None else map_of al p)"
  by (simp add: delete_conv')

lemma frame_of_update:
  "map_of (AList.update q f al) p = (if p = q then Some f else map_of al p)"
  by (simp add: update_conv')

lemma set_butlast_distinct:
  assumes "distinct xs" "xs \<noteq> []"
  shows "set (butlast xs) = set xs - {last xs}"
proof -
  have x: "xs = butlast xs @ [last xs]" using assms(2) by simp
  then have "distinct (butlast xs @ [last xs])" using assms(1) by simp
  then have n: "last xs \<notin> set (butlast xs)" by simp
  have "set xs = set (butlast xs) \<union> {last xs}" by (subst x) simp
  with n show ?thesis by blast
qed

lemma vacatedI:
  assumes "f < pool_size bp" "pool_size bp2 = pool_size bp" "pages bp2 = pages bp"
    "num_pages (disk_manager bp2) = num_pages (disk_manager bp)"
    "length (file_pages (disk_manager bp2)) \<le> num_pages (disk_manager bp)"
    "distinct (map fst (page_table bp2))"
    "\<And>p. frame_of bp2 p = (if frame_of bp p = Some f then None else frame_of bp p)"
    "distinct (free_list bp2)" "set (free_list bp2) = set (free_list bp) - {f}"
    "distinct (lru_list bp2)" "set (lru_list bp2) = set (lru_list bp) - {f}"
    "\<And>p. frame_of bp p = Some f \<Longrightarrow>
         pin_count (pages bp ! f) = 0 \<and>
         (if is_dirty (pages bp ! f)
          then WritePage p (data (pages bp ! f)) (disk_manager bp) = Inr (disk_manager bp2)
          else disk_manager bp2 = disk_manager bp)"
    "(\<forall>p. frame_of bp p \<noteq> Some f) \<Longrightarrow> disk_manager bp2 = disk_manager bp"
  shows "vacated f bp bp2"
  unfolding vacated_def
  apply (intro conjI allI impI)
  using assms apply simp_all
  done

lemma acquire_free:
  assumes inv: "bp_inv bp" and ne: "free_list bp \<noteq> []"
  shows "FindVictimPage bp = (hd (free_list bp), bp\<lparr>free_list := tl (free_list bp)\<rparr>)"
    and "EvictVictim (hd (free_list bp)) (bp\<lparr>free_list := tl (free_list bp)\<rparr>)
           = Inr (bp\<lparr>free_list := tl (free_list bp)\<rparr>)"
    and "vacated (hd (free_list bp)) bp (bp\<lparr>free_list := tl (free_list bp)\<rparr>)"
    and "\<And>p. frame_of bp p \<noteq> Some (hd (free_list bp))"
proof -
  let ?f = "hd (free_list bp)"
  have m: "?f \<in> set (free_list bp)" using ne by simp
  have fl: "free_list bp = ?f # tl (free_list bp)" using ne by simp
  have lt: "?f < pool_size bp" and nr: "\<And>p. frame_of bp p \<noteq> Some ?f"
    using m bp_inv_free[OF inv, of ?f] by simp_all
  have pid: "page_id (pages bp ! ?f) = - 1" using bp_inv_free_page_id[OF inv m] .
  show "FindVictimPage bp = (?f, bp\<lparr>free_list := tl (free_list bp)\<rparr>)"
    using ne by (simp add: FindVictimPage_cases[OF inv])
  show "EvictVictim ?f (bp\<lparr>free_list := tl (free_list bp)\<rparr>)
           = Inr (bp\<lparr>free_list := tl (free_list bp)\<rparr>)"
    using pid by (simp add: EvictVictim_def)
  show "\<And>p. frame_of bp p \<noteq> Some ?f" by (rule nr)
  have d: "distinct (free_list bp)" by (rule bp_inv_distinct_free[OF inv])
  have d': "distinct (tl (free_list bp))" using d by (simp add: distinct_tl)
  have s: "set (tl (free_list bp)) = set (free_list bp) - {?f}"
    using d fl by (metis Diff_insert_absorb distinct.simps(2) list.simps(15))
  have nl: "?f \<notin> set (lru_list bp)" using nr by (simp add: bp_inv_lru[OF inv])
  show "vacated ?f bp (bp\<lparr>free_list := tl (free_list bp)\<rparr>)"
  proof (rule vacatedI)
    show "frame_of (bp\<lparr>free_list := tl (free_list bp)\<rparr>) p
            = (if frame_of bp p = Some ?f then None else frame_of bp p)" for p
      using nr[of p] by (simp add: frame_of_def)
    show "set (lru_list (bp\<lparr>free_list := tl (free_list bp)\<rparr>)) = set (lru_list bp) - {?f}"
      using nl by simp
    show "pin_count (pages bp ! ?f) = 0 \<and>
         (if is_dirty (pages bp ! ?f)
          then WritePage p (data (pages bp ! ?f)) (disk_manager bp)
                 = Inr (disk_manager (bp\<lparr>free_list := tl (free_list bp)\<rparr>))
          else disk_manager (bp\<lparr>free_list := tl (free_list bp)\<rparr>) = disk_manager bp)"
      if "frame_of bp p = Some ?f" for p
      using that nr[of p] by simp
  qed (use lt d' s bp_inv_file[OF inv] bp_inv_distinct[OF inv] bp_inv_distinct_lru[OF inv] in simp_all)
qed

lemma acquire_lru:
  assumes inv: "bp_inv bp" and e: "free_list bp = []" and ne: "lru_list bp \<noteq> []"
  shows "FindVictimPage bp = (last (lru_list bp), bp\<lparr>lru_list := butlast (lru_list bp)\<rparr>)"
    and "\<exists>bp2. EvictVictim (last (lru_list bp)) (bp\<lparr>lru_list := butlast (lru_list bp)\<rparr>) = Inr bp2
           \<and> vacated (last (lru_list bp)) bp bp2"
proof -
  let ?f = "last (lru_list bp)"
  let ?bp1 = "bp\<lparr>lru_list := butlast (lru_list bp)\<rparr>"
  have m: "?f \<in> set (lru_list bp)" using ne by simp
  then obtain q where q: "frame_of bp q = Some ?f" and pin: "pin_count (pages bp ! ?f) = 0"
    using bp_inv_lru[OF inv, of ?f] by auto
  note fq = bp_inv_frame[OF inv q]
  show "FindVictimPage bp = (?f, ?bp1)"
    using e ne by (simp add: FindVictimPage_cases[OF inv])
  have d: "distinct (lru_list bp)" by (rule bp_inv_distinct_lru[OF inv])
  have sl: "set (butlast (lru_list bp)) = set (lru_list bp) - {?f}"
    by (rule set_butlast_distinct[OF d ne])
  have dl: "distinct (butlast (lru_list bp))" using d by (simp add: distinct_butlast)
  have fo: "map_of (AList.delete q (page_table bp)) p
              = (if frame_of bp p = Some ?f then None else frame_of bp p)" for p
  proof (cases "p = q")
    case True
    then show ?thesis using q by (simp add: frame_of_delete frame_of_def)
  next
    case False
    then have "frame_of bp p \<noteq> Some ?f" using bp_inv_inj[OF inv q, of p] by auto
    then show ?thesis using False by (simp add: frame_of_delete frame_of_def)
  qed
  have dd: "distinct (map fst (AList.delete q (page_table bp)))"
    using bp_inv_distinct[OF inv] by (rule distinct_delete)
  have q_le: "Suc (nat q) \<le> num_pages (disk_manager bp)" using fq(3,4) by simp
  show "\<exists>bp2. EvictVictim ?f ?bp1 = Inr bp2 \<and> vacated ?f bp bp2"
  proof (cases "is_dirty (pages bp ! ?f)")
    case True
    obtain d' where w: "WritePage q (data (pages bp ! ?f)) (disk_manager bp) = Inr d'"
      and np: "num_pages d' = num_pages (disk_manager bp)"
      and len: "length (file_pages d') = max (length (file_pages (disk_manager bp))) (Suc (nat q))"
      using WritePage_ok[OF fq(3), of "data (pages bp ! ?f)" "disk_manager bp"] by metis
    let ?bp2 = "?bp1\<lparr>disk_manager := d', page_table := AList.delete q (page_table bp)\<rparr>"
    have ev: "EvictVictim ?f ?bp1 = Inr ?bp2"
      using True fq(2,3) w by (simp add: EvictVictim_def Let_def)
    have l2: "length (file_pages d') \<le> num_pages (disk_manager bp)"
      using len q_le bp_inv_file[OF inv] by simp
    have "vacated ?f bp ?bp2"
    proof (rule vacatedI)
      show "frame_of ?bp2 p = (if frame_of bp p = Some ?f then None else frame_of bp p)" for p
        using fo[of p] by (simp add: frame_of_def)
      show "pin_count (pages bp ! ?f) = 0 \<and>
         (if is_dirty (pages bp ! ?f)
          then WritePage p (data (pages bp ! ?f)) (disk_manager bp) = Inr (disk_manager ?bp2)
          else disk_manager ?bp2 = disk_manager bp)" if "frame_of bp p = Some ?f" for p
      proof -
        have "p = q" using bp_inv_inj[OF inv q that] .
        then show ?thesis using pin True w by simp
      qed
      show "disk_manager ?bp2 = disk_manager bp" if "\<forall>p. frame_of bp p \<noteq> Some ?f"
        using that q by simp
    qed (use fq(1) np l2 dd dl sl e in simp_all)
    with ev show ?thesis by blast
  next
    case False
    let ?bp2 = "?bp1\<lparr>page_table := AList.delete q (page_table bp)\<rparr>"
    have ev: "EvictVictim ?f ?bp1 = Inr ?bp2"
      using False fq(2,3) by (simp add: EvictVictim_def Let_def)
    have "vacated ?f bp ?bp2"
    proof (rule vacatedI)
      show "frame_of ?bp2 p = (if frame_of bp p = Some ?f then None else frame_of bp p)" for p
        using fo[of p] by (simp add: frame_of_def)
      show "pin_count (pages bp ! ?f) = 0 \<and>
         (if is_dirty (pages bp ! ?f)
          then WritePage p (data (pages bp ! ?f)) (disk_manager bp) = Inr (disk_manager ?bp2)
          else disk_manager ?bp2 = disk_manager bp)" if "frame_of bp p = Some ?f" for p
        using pin False by simp
      show "disk_manager ?bp2 = disk_manager bp" if "\<forall>p. frame_of bp p \<noteq> Some ?f"
        by simp
    qed (use fq(1) bp_inv_file[OF inv] dd dl sl e in simp_all)
    with ev show ?thesis by blast
  qed
qed

lemma install_frame_of:
  assumes vac: "vacated f bp bp2"
  shows "frame_of (installed f p dt d3 bp2) q =
           (if q = p then Some f else if frame_of bp q = Some f then None else frame_of bp q)"
proof -
  have "frame_of bp2 q = (if frame_of bp q = Some f then None else frame_of bp q)"
    using vac by (simp add: vacated_def)
  then show ?thesis
    by (simp add: installed_def frame_of_def frame_of_update)
qed

lemma install_pages:
  assumes vac: "vacated f bp bp2" and inv: "bp_inv bp"
  shows "pages (installed f p dt d3 bp2) ! g =
           (if g = f then \<lparr>page_id = p, data = dt, is_dirty = False, pin_count = 1\<rparr>
            else pages bp ! g)"
proof -
  have "pages bp2 = pages bp" "f < pool_size bp" using vac by (simp_all add: vacated_def)
  then show ?thesis using bp_inv_length[OF inv] by (simp add: installed_def)
qed

lemma install_inv:
  assumes inv: "bp_inv bp" and vac: "vacated f bp bp2" and nr: "frame_of bp p = None"
    and p0: "0 \<le> p" and pn: "p < int (num_pages d3)"
    and np: "num_pages (disk_manager bp) \<le> num_pages d3"
    and fp: "file_pages d3 = file_pages (disk_manager bp2)"
  shows "bp_inv (installed f p dt d3 bp2)"
proof (rule bp_invI)
  let ?b = "installed f p dt d3 bp2"
  note fo = install_frame_of[OF vac, of p dt d3] and pg = install_pages[OF vac inv, of p dt d3]
  have v: "f < pool_size bp" "pool_size bp2 = pool_size bp" "pages bp2 = pages bp"
    "length (file_pages (disk_manager bp2)) \<le> num_pages (disk_manager bp)"
    "distinct (map fst (page_table bp2))"
    "distinct (free_list bp2)" "set (free_list bp2) = set (free_list bp) - {f}"
    "distinct (lru_list bp2)" "set (lru_list bp2) = set (lru_list bp) - {f}"
    using vac by (simp_all add: vacated_def)
  show "length (pages ?b) = pool_size ?b"
    using v(2,3) bp_inv_length[OF inv] by (simp add: installed_def)
  show "length (file_pages (disk_manager ?b)) \<le> num_pages (disk_manager ?b)"
    using v(4) np fp by (simp add: installed_def)
  show "distinct (map fst (page_table ?b))"
    using v(5) by (simp add: installed_def distinct_update)
  show "distinct (free_list ?b)" using v(6) by (simp add: installed_def)
  show "distinct (lru_list ?b)" using v(8) by (simp add: installed_def)
  have ps: "pool_size ?b = pool_size bp" using v(2) by (simp add: installed_def)
  have nps: "num_pages (disk_manager ?b) = num_pages d3" by (simp add: installed_def)
  show "g < pool_size ?b \<and> page_id (pages ?b ! g) = q \<and> 0 \<le> q \<and>
         q < int (num_pages (disk_manager ?b)) \<and> 0 \<le> pin_count (pages ?b ! g)"
    if "frame_of ?b q = Some g" for q g
  proof (cases "q = p")
    case True
    then have "g = f" using that by (simp add: fo)
    then show ?thesis using True v(1) p0 pn by (simp add: ps nps pg)
  next
    case False
    then have a: "frame_of bp q = Some g" and b: "g \<noteq> f"
      using that by (auto simp: fo split: if_splits)
    from bp_inv_frame[OF inv a] show ?thesis using b np by (simp add: ps nps pg)
  qed
  have fl: "set (free_list ?b) = set (free_list bp) - {f}" using v(7) by (simp add: installed_def)
  have ll: "set (lru_list ?b) = set (lru_list bp) - {f}" using v(9) by (simp add: installed_def)
  show "(g \<in> set (free_list ?b)) = (g < pool_size ?b \<and> (\<forall>q. frame_of ?b q \<noteq> Some g))" for g
  proof (cases "g = f")
    case True
    have "frame_of ?b p = Some f" by (simp add: fo)
    then show ?thesis using True fl by auto
  next
    case False
    have "(\<forall>q. frame_of ?b q \<noteq> Some g) = (\<forall>q. frame_of bp q \<noteq> Some g)"
    proof -
      have "(frame_of ?b q = Some g) = (frame_of bp q = Some g)" for q
        using False nr by (auto simp: fo)
      then show ?thesis by simp
    qed
    then show ?thesis using False fl bp_inv_free[OF inv, of g] by (simp add: ps)
  qed
  show "page_id (pages ?b ! g) = - 1" if "g \<in> set (free_list ?b)" for g
  proof -
    have "g \<noteq> f" "g \<in> set (free_list bp)" using that fl by auto
    then show ?thesis using bp_inv_free_page_id[OF inv] by (simp add: pg)
  qed
  show "(g \<in> set (lru_list ?b)) =
          ((\<exists>q. frame_of ?b q = Some g) \<and> pin_count (pages ?b ! g) = 0)" for g
  proof (cases "g = f")
    case True
    then show ?thesis using ll by (simp add: pg)
  next
    case False
    have "(frame_of ?b q = Some g) = (frame_of bp q = Some g)" for q
      using False nr by (auto simp: fo)
    then show ?thesis using False ll bp_inv_lru[OF inv, of g] by (simp add: pg)
  qed
qed

lemma find_rev_last: "xs \<noteq> [] \<Longrightarrow> P (last xs) \<Longrightarrow> find P (rev xs) = Some (last xs)"
  by (induction xs rule: rev_induct) auto

lemma victim_of_inv:
  assumes "bp_inv bp"
  shows "victim_of bp =
     (if free_list bp \<noteq> [] then Some (hd (free_list bp))
      else if lru_list bp \<noteq> [] then Some (last (lru_list bp)) else None)"
proof (cases "free_list bp = [] \<and> lru_list bp \<noteq> []")
  case True
  then have m: "last (lru_list bp) \<in> set (lru_list bp)" by simp
  have z: "pin_count (pages bp ! last (lru_list bp)) = 0"
    using m bp_inv_lru[OF assms] by simp
  have "find (\<lambda>f. pin_count (pages bp ! f) = 0) (rev (lru_list bp))
               = Some (last (lru_list bp))"
    using True z by (intro find_rev_last) simp_all
  then show ?thesis using True by (simp add: victim_of_def)
next
  case False
  then show ?thesis by (auto simp: victim_of_def)
qed

lemma FetchPage_resident:
  assumes "frame_of bp p = Some f"
  shows "FetchPage p bp = Inr (Some f, pinned_more f bp)"
proof -
  have "(if f \<in> set (lru_list bp) then remove1 f (lru_list bp) else lru_list bp)
          = remove1 f (lru_list bp)"
    by (simp add: remove1_idem)
  then show ?thesis
    using assms by (simp add: FetchPage_def frame_of_def Let_def pinned_more_def)
qed

lemma acquire_cases:
  assumes inv: "bp_inv bp"
  obtains (none) "FindVictimPage bp = (pool_size bp, bp)" "free_list bp = []" "lru_list bp = []"
      "victim_of bp = None"
  | (some) f bp1 bp2 where "FindVictimPage bp = (f, bp1)" "f \<noteq> pool_size bp1"
      "EvictVictim f bp1 = Inr bp2" "vacated f bp bp2" "victim_of bp = Some f"
proof (cases "free_list bp \<noteq> []")
  case True
  note a = acquire_free[OF inv True]
  have "hd (free_list bp) \<noteq> pool_size (bp\<lparr>free_list := tl (free_list bp)\<rparr>)"
    using a(3) by (simp add: vacated_def)
  then show ?thesis
    using some[OF a(1) _ a(2) a(3)] True by (simp add: victim_of_inv[OF inv])
next
  case False
  then have e: "free_list bp = []" by simp
  show ?thesis
  proof (cases "lru_list bp \<noteq> []")
    case True
    note a = acquire_lru[OF inv e True]
    from a(2) obtain bp2 where
      b: "EvictVictim (last (lru_list bp)) (bp\<lparr>lru_list := butlast (lru_list bp)\<rparr>) = Inr bp2"
         "vacated (last (lru_list bp)) bp bp2" by blast
    have "last (lru_list bp) \<noteq> pool_size (bp\<lparr>lru_list := butlast (lru_list bp)\<rparr>)"
      using b(2) by (simp add: vacated_def)
    then show ?thesis
      using some[OF a(1) _ b(1) b(2)] True e by (simp add: victim_of_inv[OF inv])
  next
    case F: False
    then have "FindVictimPage bp = (pool_size bp, bp)"
      using e by (simp add: FindVictimPage_cases[OF inv])
    then show ?thesis using none e F by (simp add: victim_of_inv[OF inv])
  qed
qed

lemma FetchPage_nonresident:
  assumes inv: "bp_inv bp" and nr: "frame_of bp p = None" and p0: "0 \<le> p"
  obtains (none) "FetchPage p bp = Inr (None, bp)" "free_list bp = []" "lru_list bp = []"
      "victim_of bp = None"
  | (some) f bp2 where "vacated f bp bp2" "victim_of bp = Some f"
      "FetchPage p bp =
         Inr (Some f, installed f p (disk_read (disk_manager bp2) p) (disk_manager bp2) bp2)"
proof (cases rule: acquire_cases[OF inv])
  case 1
  then have "FetchPage p bp = Inr (None, bp)"
    using nr by (simp add: FetchPage_def frame_of_def)
  then show ?thesis using none 1 by simp
next
  case (2 f bp1 bp2)
  have "FetchPage p bp =
         Inr (Some f, installed f p (disk_read (disk_manager bp2) p) (disk_manager bp2) bp2)"
    using nr 2(1,2,3) p0
    by (simp add: FetchPage_def frame_of_def ReadPage_disk_read installed_def)
  then show ?thesis using some[OF 2(4) 2(5)] by simp
qed

lemma NewPage_cases:
  assumes inv: "bp_inv bp"
  obtains (none) "NewPage bp = Inr (None, bp)" "free_list bp = []" "lru_list bp = []"
      "victim_of bp = None"
  | (some) f bp2 where "vacated f bp bp2" "victim_of bp = Some f"
      "NewPage bp =
         Inr (Some (f, int (num_pages (disk_manager bp))),
              installed f (int (num_pages (disk_manager bp))) Zeroed
                ((disk_manager bp2)\<lparr>num_pages := Suc (num_pages (disk_manager bp))\<rparr>) bp2)"
proof (cases rule: acquire_cases[OF inv])
  case 1
  then have "NewPage bp = Inr (None, bp)"
    by (simp add: NewPage_def)
  then show ?thesis using none 1 by simp
next
  case (2 f bp1 bp2)
  have np: "num_pages (disk_manager bp2) = num_pages (disk_manager bp)"
    using 2(4) by (simp add: vacated_def)
  have "NewPage bp =
         Inr (Some (f, int (num_pages (disk_manager bp))),
              installed f (int (num_pages (disk_manager bp))) Zeroed
                ((disk_manager bp2)\<lparr>num_pages := Suc (num_pages (disk_manager bp))\<rparr>) bp2)"
    using 2(1,2,3) np
    by (simp add: NewPage_def AllocatePage_def installed_def)
  then show ?thesis using some[OF 2(4) 2(5)] by simp
qed

lemma disk_read_pred:
  "P Zeroed \<Longrightarrow> \<forall>pg \<in> set (file_pages d). P pg \<Longrightarrow> P (disk_read d q)"
  by (simp add: disk_read_def)

lemma vacated_disk:
  assumes inv: "bp_inv bp" and vac: "vacated f bp bp2" and q0: "0 \<le> q"
  shows "disk_read (disk_manager bp2) q =
           (if frame_of bp q = Some f \<and> is_dirty (pages bp ! f) then data (pages bp ! f)
            else disk_read (disk_manager bp) q)"
proof (cases "\<exists>e. frame_of bp e = Some f")
  case False
  then have "disk_manager bp2 = disk_manager bp" using vac by (simp add: vacated_def)
  then show ?thesis using False by auto
next
  case True
  then obtain e where e: "frame_of bp e = Some f" by blast
  have e0: "0 \<le> e" using bp_inv_frame(3)[OF inv e] .
  have w: "if is_dirty (pages bp ! f)
          then WritePage e (data (pages bp ! f)) (disk_manager bp) = Inr (disk_manager bp2)
          else disk_manager bp2 = disk_manager bp"
    using vac e unfolding vacated_def by blast
  show ?thesis
  proof (cases "is_dirty (pages bp ! f)")
    case False
    then show ?thesis using w by simp
  next
    case True
    then have w': "WritePage e (data (pages bp ! f)) (disk_manager bp) = Inr (disk_manager bp2)"
      using w by simp
    obtain d' where d': "WritePage e (data (pages bp ! f)) (disk_manager bp) = Inr d'"
      "disk_read d' e = data (pages bp ! f)"
      "\<And>q. 0 \<le> q \<Longrightarrow> q \<noteq> e \<Longrightarrow> disk_read d' q = disk_read (disk_manager bp) q"
      using WritePage_ok[OF e0, of "data (pages bp ! f)" "disk_manager bp"] by metis
    have eq: "d' = disk_manager bp2" using w' d'(1) by simp
    show ?thesis
    proof (cases "q = e")
      case True
      then show ?thesis using e \<open>is_dirty (pages bp ! f)\<close> d'(2) eq by simp
    next
      case False
      then have "frame_of bp q \<noteq> Some f" using bp_inv_inj[OF inv e, of q] by auto
      then show ?thesis using d'(3)[OF q0 False] eq by simp
    qed
  qed
qed

lemma vacated_all_pages:
  assumes inv: "bp_inv bp" and vac: "vacated f bp bp2" and ap: "all_pages P bp" and z: "P Zeroed"
  shows "all_pages P bp2"
proof -
  have pg: "pages bp2 = pages bp" using vac by (simp add: vacated_def)
  have "\<forall>pg \<in> set (file_pages (disk_manager bp2)). P pg"
  proof (cases "\<exists>e. frame_of bp e = Some f \<and> is_dirty (pages bp ! f)")
    case False
    then have "disk_manager bp2 = disk_manager bp"
      using vac unfolding vacated_def by (metis (full_types))
    then show ?thesis using ap by (simp add: all_pages_def)
  next
    case True
    then obtain e where e: "frame_of bp e = Some f" and dirty: "is_dirty (pages bp ! f)" by blast
    have w: "WritePage e (data (pages bp ! f)) (disk_manager bp) = Inr (disk_manager bp2)"
      using vac e dirty unfolding vacated_def by (metis (full_types))
    have e0: "0 \<le> e" using bp_inv_frame(3)[OF inv e] .
    have fl: "f < length (pages bp)" using bp_inv_frame(1)[OF inv e] bp_inv_length[OF inv] by simp
    have Pd: "P (data (pages bp ! f))" using ap fl by (simp add: all_pages_def)
    let ?f0 = "file_pages (disk_manager bp)"
    have "disk_manager bp2 = (disk_manager bp)\<lparr>file_pages :=
             (?f0 @ replicate (Suc (nat e) - length ?f0) Zeroed)[nat e := data (pages bp ! f)]\<rparr>"
      using w e0 by (simp add: WritePage_def Let_def)
    then have "file_pages (disk_manager bp2)
            = (?f0 @ replicate (Suc (nat e) - length ?f0) Zeroed)[nat e := data (pages bp ! f)]"
      by simp
    moreover have "\<forall>pg \<in> set ((?f0 @ replicate (Suc (nat e) - length ?f0) Zeroed)[nat e := data (pages bp ! f)]). P pg"
    proof
      fix pg assume "pg \<in> set ((?f0 @ replicate (Suc (nat e) - length ?f0) Zeroed)[nat e := data (pages bp ! f)])"
      then have "pg \<in> insert (data (pages bp ! f)) (set (?f0 @ replicate (Suc (nat e) - length ?f0) Zeroed))"
        using set_update_subset_insert by fast
      then have "pg = data (pages bp ! f) \<or> pg \<in> set ?f0 \<or> pg = Zeroed" by auto
      then show "P pg" using Pd z ap by (auto simp: all_pages_def)
    qed
    ultimately show ?thesis by simp
  qed
  then show ?thesis using ap pg by (simp add: all_pages_def)
qed

lemma pin_of_nonneg: "bp_inv bp \<Longrightarrow> 0 \<le> pin_of bp p"
  by (auto simp: pin_of_def dest: bp_inv_frame(5) split: option.splits)

lemma installed_pin_of:
  assumes inv: "bp_inv bp" and vac: "vacated f bp bp2" and nr: "frame_of bp p = None"
  shows "pin_of (installed f p dt d3 bp2) = (pin_of bp)(p := pin_of bp p + 1)"
proof
  fix q
  let ?b = "installed f p dt d3 bp2"
  note fo = install_frame_of[OF vac, of p dt d3] and pg = install_pages[OF vac inv, of p dt d3]
  show "pin_of ?b q = ((pin_of bp)(p := pin_of bp p + 1)) q"
  proof (cases "q = p")
    case True
    then show ?thesis using nr by (simp add: pin_of_def fo pg)
  next
    case False
    show ?thesis
    proof (cases "frame_of bp q")
      case None
      then show ?thesis using False by (simp add: pin_of_def fo)
    next
      case (Some g)
      show ?thesis
      proof (cases "g = f")
        case True
        then have "pin_count (pages bp ! f) = 0" using vac Some unfolding vacated_def by blast
        then show ?thesis using False Some True by (simp add: pin_of_def fo)
      next
        case F: False
        then show ?thesis using False Some by (simp add: pin_of_def fo pg)
      qed
    qed
  qed
qed

lemma installed_stable:
  assumes inv: "bp_inv bp" and vac: "vacated f bp bp2" and nr: "frame_of bp p = None"
    and q: "frame_of bp q = Some g" and pin: "0 < pin_count (pages bp ! g)"
  shows "frame_of (installed f p dt d3 bp2) q = Some g"
    "pages (installed f p dt d3 bp2) ! g = pages bp ! g"
proof -
  note fo = install_frame_of[OF vac, of p dt d3] and pg = install_pages[OF vac inv, of p dt d3]
  have gf: "g \<noteq> f"
  proof
    assume "g = f"
    then have "pin_count (pages bp ! g) = 0" using vac q unfolding vacated_def by blast
    then show False using pin by simp
  qed
  have qp: "q \<noteq> p" using q nr by auto
  show "frame_of (installed f p dt d3 bp2) q = Some g" using gf qp q by (simp add: fo)
  show "pages (installed f p dt d3 bp2) ! g = pages bp ! g" using gf by (simp add: pg)
qed

lemma installed_all_pages:
  assumes inv: "bp_inv bp" and vac: "vacated f bp bp2" and ap: "all_pages P bp" and z: "P Zeroed"
    and dt: "P dt" and fp: "file_pages d3 = file_pages (disk_manager bp2)"
  shows "all_pages P (installed f p dt d3 bp2)"
proof -
  have a2: "all_pages P bp2" by (rule vacated_all_pages[OF inv vac ap z])
  have "\<forall>pg \<in> set ((pages bp2)[f := \<lparr>page_id = p, data = dt, is_dirty = False, pin_count = 1\<rparr>]).
          P (data pg)"
  proof
    fix pg assume "pg \<in> set ((pages bp2)[f := \<lparr>page_id = p, data = dt, is_dirty = False, pin_count = 1\<rparr>])"
    then have "pg \<in> insert \<lparr>page_id = p, data = dt, is_dirty = False, pin_count = 1\<rparr> (set (pages bp2))"
      using set_update_subset_insert by fast
    then show "P (data pg)" using a2 dt by (auto simp: all_pages_def)
  qed
  then show ?thesis using a2 fp by (simp add: all_pages_def installed_def)
qed

lemma installed_view:
  assumes inv: "bp_inv bp" and vac: "vacated f bp bp2" and nr: "frame_of bp p = None"
    and p0: "0 \<le> p"
    and fp: "file_pages d3 = file_pages (disk_manager bp2)"
    and dt: "dt = disk_read (disk_manager bp) p"
    and coh: "coherent W bp" and W: "\<forall>w \<in> W. 0 < pin_of bp w"
  shows "coherent W (installed f p dt d3 bp2)"
    "\<And>q. 0 \<le> q \<Longrightarrow> view (installed f p dt d3 bp2) q = view bp q"
proof -
  let ?b = "installed f p dt d3 bp2"
  note fo = install_frame_of[OF vac] and pg = install_pages[OF vac inv]
  have dm: "disk_manager (installed f p x d3 bp2) = d3" for x by (simp add: installed_def)
  have dr: "disk_read d3 q = disk_read (disk_manager bp2) q" for q
    using fp by (simp add: disk_read_def)
  have evicted: "disk_read d3 q = data (pages bp ! f)" if "frame_of bp q = Some f" for q
  proof -
    have q0: "0 \<le> q" using bp_inv_frame(3)[OF inv that] .
    have "pin_of bp q = 0" using vac that unfolding vacated_def pin_of_def by auto
    then have "q \<notin> W" using W by auto
    then have c: "is_dirty (pages bp ! f) \<or> data (pages bp ! f) = disk_read (disk_manager bp) q"
      using coh that unfolding coherent_def by blast
    show ?thesis using vacated_disk[OF inv vac q0] that c by (auto simp: dr)
  qed
  have other: "disk_read d3 q = disk_read (disk_manager bp) q"
    if "0 \<le> q" "frame_of bp q \<noteq> Some f" for q
    using vacated_disk[OF inv vac that(1)] that(2) by (simp add: dr)
  show v: "view ?b q = view bp q" if q0: "0 \<le> q" for q
  proof (cases "q = p")
    case True
    then show ?thesis using nr dt by (simp add: view_def fo pg)
  next
    case False
    show ?thesis
    proof (cases "frame_of bp q")
      case None
      then show ?thesis using False other[OF q0] by (simp add: view_def fo dm)
    next
      case (Some g)
      show ?thesis
      proof (cases "g = f")
        case True
        then show ?thesis using False Some evicted[of q] by (simp add: view_def fo dm)
      next
        case F: False
        then show ?thesis using False Some by (simp add: view_def fo pg)
      qed
    qed
  qed
  show "coherent W ?b"
    unfolding coherent_def
  proof (intro allI impI)
    fix q g assume a: "frame_of ?b q = Some g" "q \<notin> W"
    show "is_dirty (pages ?b ! g) \<or> data (pages ?b ! g) = disk_read (disk_manager ?b) q"
    proof (cases "q = p")
      case True
      then have g: "g = f" using a(1) by (simp add: fo)
      have "frame_of bp p \<noteq> Some f" using nr by simp
      from other[OF p0 this] show ?thesis using True g dt by (simp add: pg dm)
    next
      case False
      then have b: "frame_of bp q = Some g" "g \<noteq> f"
        using a(1) by (auto simp: fo split: if_splits)
      have q0: "0 \<le> q" using bp_inv_frame(3)[OF inv b(1)] .
      have "frame_of bp q \<noteq> Some f" using b by simp
      from other[OF q0 this] coh b a(2) show ?thesis
        unfolding coherent_def by (auto simp: pg dm)
    qed
  qed
qed

lemma UnpinPage_cases:
  "UnpinPage p dirty bp =
     (case frame_of bp p of
        None \<Rightarrow> (False, bp)
      | Some f \<Rightarrow> if pin_count (pages bp ! f) \<le> 0 then (False, bp)
                  else (True, unpinned f dirty bp))"
  by (auto simp: UnpinPage_def frame_of_def unpinned_def Let_def split: option.splits)

text \<open>A change of the pin count, dirty bit and LRU position of one resident frame.\<close>

lemma repin_inv:
  assumes inv: "bp_inv bp" and fp: "frame_of bp p = Some f"
    and pg: "pages bp' = (pages bp)[f := (pages bp ! f)\<lparr>pin_count := c, is_dirty := b\<rparr>]"
    and c0: "0 \<le> c"
    and rest: "pool_size bp' = pool_size bp" "disk_manager bp' = disk_manager bp"
      "page_table bp' = page_table bp" "free_list bp' = free_list bp"
    and dl: "distinct (lru_list bp')"
    and sl: "set (lru_list bp') = (if c = 0 then insert f (set (lru_list bp))
                                     else set (lru_list bp) - {f})"
  shows "bp_inv bp'"
proof (rule bp_invI)
  note f = bp_inv_frame[OF inv fp]
  have len: "f < length (pages bp)" using f(1) bp_inv_length[OF inv] by simp
  have fo: "frame_of bp' = frame_of bp" using rest(3) by (simp add: frame_of_def)
  have pgs: "pages bp' ! g = (if g = f then (pages bp ! f)\<lparr>pin_count := c, is_dirty := b\<rparr>
                               else pages bp ! g)" for g
    using len by (simp add: pg)
  show "length (pages bp') = pool_size bp'" using bp_inv_length[OF inv] by (simp add: pg rest)
  show "length (file_pages (disk_manager bp')) \<le> num_pages (disk_manager bp')"
    using bp_inv_file[OF inv] by (simp add: rest)
  show "distinct (map fst (page_table bp'))" using bp_inv_distinct[OF inv] by (simp add: rest)
  show "distinct (free_list bp')" using bp_inv_distinct_free[OF inv] by (simp add: rest)
  show "distinct (lru_list bp')" by (rule dl)
  show "g < pool_size bp' \<and> page_id (pages bp' ! g) = q \<and> 0 \<le> q \<and>
         q < int (num_pages (disk_manager bp')) \<and> 0 \<le> pin_count (pages bp' ! g)"
    if "frame_of bp' q = Some g" for q g
    using bp_inv_frame[OF inv that[unfolded fo]] c0 by (auto simp: rest pgs)
  show "(g \<in> set (free_list bp')) = (g < pool_size bp' \<and> (\<forall>q. frame_of bp' q \<noteq> Some g))" for g
    using bp_inv_free[OF inv, of g] by (simp add: rest fo)
  show "page_id (pages bp' ! g) = - 1" if "g \<in> set (free_list bp')" for g
  proof -
    have m: "g \<in> set (free_list bp)" using that by (simp add: rest)
    then have "g \<noteq> f" using bp_inv_free[OF inv, of g] fp by auto
    then show ?thesis using bp_inv_free_page_id[OF inv m] by (simp add: pgs)
  qed
  show "(g \<in> set (lru_list bp')) =
          ((\<exists>q. frame_of bp' q = Some g) \<and> pin_count (pages bp' ! g) = 0)" for g
  proof (cases "g = f")
    case True
    then show ?thesis using fp by (auto simp: sl fo pgs)
  next
    case False
    then show ?thesis using bp_inv_lru[OF inv, of g] by (auto simp: sl fo pgs)
  qed
qed

lemma pinned_more_inv:
  assumes inv: "bp_inv bp" and fp: "frame_of bp p = Some f"
  shows "bp_inv (pinned_more f bp)"
proof (rule repin_inv[OF inv fp, where c = "pin_count (pages bp ! f) + 1" and b = "is_dirty (pages bp ! f)"])
  show "pages (pinned_more f bp) = (pages bp)[f := (pages bp ! f)
          \<lparr>pin_count := pin_count (pages bp ! f) + 1, is_dirty := is_dirty (pages bp ! f)\<rparr>]"
    by (simp add: pinned_more_def)
  show "0 \<le> pin_count (pages bp ! f) + 1" using bp_inv_frame(5)[OF inv fp] by simp
  show "distinct (lru_list (pinned_more f bp))"
    using bp_inv_distinct_lru[OF inv] by (simp add: pinned_more_def)
  show "set (lru_list (pinned_more f bp)) =
          (if pin_count (pages bp ! f) + 1 = 0 then insert f (set (lru_list bp))
           else set (lru_list bp) - {f})"
    using bp_inv_distinct_lru[OF inv] bp_inv_frame(5)[OF inv fp] by (simp add: pinned_more_def)
qed (simp_all add: pinned_more_def)

lemma unpinned_inv:
  assumes inv: "bp_inv bp" and fp: "frame_of bp p = Some f" and pin: "0 < pin_count (pages bp ! f)"
  shows "bp_inv (unpinned f dirty bp)"
proof (rule repin_inv[OF inv fp, where c = "pin_count (pages bp ! f) - 1"
        and b = "dirty \<or> is_dirty (pages bp ! f)"])
  have nl: "f \<notin> set (lru_list bp)" using pin bp_inv_lru[OF inv, of f] by simp
  show "pages (unpinned f dirty bp) = (pages bp)[f := (pages bp ! f)
          \<lparr>pin_count := pin_count (pages bp ! f) - 1, is_dirty := dirty \<or> is_dirty (pages bp ! f)\<rparr>]"
    by (simp add: unpinned_def)
  show "0 \<le> pin_count (pages bp ! f) - 1" using pin by simp
  show "distinct (lru_list (unpinned f dirty bp))"
    using bp_inv_distinct_lru[OF inv] nl by (simp add: unpinned_def)
  show "set (lru_list (unpinned f dirty bp)) =
          (if pin_count (pages bp ! f) - 1 = 0 then insert f (set (lru_list bp))
           else set (lru_list bp) - {f})"
    using nl by (auto simp: unpinned_def)
qed (simp_all add: unpinned_def)

text \<open>Replacing the record of one resident frame, with table, lists and disk unchanged.\<close>

lemma frame_update_effects:
  assumes inv: "bp_inv bp" and fp: "frame_of bp p = Some f"
    and pg: "pages bp' = (pages bp)[f := pg']"
    and pt: "page_table bp' = page_table bp" and dm: "disk_manager bp' = disk_manager bp"
  shows "frame_of bp' = frame_of bp"
    "pin_of bp' = (pin_of bp)(p := pin_count pg')"
    "\<And>g. g \<noteq> f \<Longrightarrow> pages bp' ! g = pages bp ! g"
    "pages bp' ! f = pg'"
    "\<And>q. view bp' q = (if q = p then data pg' else view bp q)"
    "all_pages P bp \<Longrightarrow> P (data pg') \<Longrightarrow> all_pages P bp'"
proof -
  note f = bp_inv_frame[OF inv fp]
  have len: "f < length (pages bp)" using f(1) bp_inv_length[OF inv] by simp
  show fo: "frame_of bp' = frame_of bp" using pt by (simp add: frame_of_def)
  show o: "pages bp' ! g = pages bp ! g" if "g \<noteq> f" for g using that by (simp add: pg)
  show s: "pages bp' ! f = pg'" using len by (simp add: pg)
  have only: "q = p" if "frame_of bp q = Some f" for q using bp_inv_inj[OF inv fp that] .
  show "pin_of bp' = (pin_of bp)(p := pin_count pg')"
  proof
    fix q
    show "pin_of bp' q = ((pin_of bp)(p := pin_count pg')) q"
    proof (cases "q = p")
      case True
      then show ?thesis using fp s by (simp add: pin_of_def fo)
    next
      case False
      then have "frame_of bp q \<noteq> Some f" using only by auto
      then show ?thesis using False o by (auto simp: pin_of_def fo split: option.splits)
    qed
  qed
  show "view bp' q = (if q = p then data pg' else view bp q)" for q
  proof (cases "q = p")
    case True
    then show ?thesis using fp s by (simp add: view_def fo)
  next
    case False
    then have "frame_of bp q \<noteq> Some f" using only by auto
    then show ?thesis using False o by (auto simp: view_def fo dm split: option.splits)
  qed
  show "all_pages P bp'" if ap: "all_pages P bp" and d: "P (data pg')"
  proof -
    have "\<forall>x \<in> set ((pages bp)[f := pg']). P (data x)"
    proof
      fix x assume "x \<in> set ((pages bp)[f := pg'])"
      then have "x \<in> insert pg' (set (pages bp))" using set_update_subset_insert by fast
      then show "P (data x)" using ap d by (auto simp: all_pages_def)
    qed
    then show ?thesis using ap by (simp add: all_pages_def pg dm)
  qed
qed

lemma frame_update_coherent:
  assumes inv: "bp_inv bp" and fp: "frame_of bp p = Some f"
    and pg: "pages bp' = (pages bp)[f := pg']"
    and pt: "page_table bp' = page_table bp" and dm: "disk_manager bp' = disk_manager bp"
    and coh: "coherent W bp"
    and ok: "p \<in> W' \<or> is_dirty pg' \<or> data pg' = disk_read (disk_manager bp) p"
    and sub: "W - {p} \<subseteq> W'"
  shows "coherent W' bp'"
  unfolding coherent_def
proof (intro allI impI)
  fix q g assume a: "frame_of bp' q = Some g" "q \<notin> W'"
  note e = frame_update_effects[OF inv fp pg pt dm]
  have b: "frame_of bp q = Some g" using a(1) by (simp add: e(1))
  show "is_dirty (pages bp' ! g) \<or> data (pages bp' ! g) = disk_read (disk_manager bp') q"
  proof (cases "q = p")
    case True
    then have "g = f" using b fp by simp
    then show ?thesis using True ok a(2) by (simp add: e(4) dm)
  next
    case False
    then have "g \<noteq> f" using bp_inv_inj[OF inv fp, of q] b by auto
    moreover have "q \<notin> W" using a(2) False sub by auto
    ultimately show ?thesis using coh b unfolding coherent_def by (auto simp: e(3) dm)
  qed
qed

lemma FetchPage_effect:
  assumes inv: "bp_inv bp" and p0: "0 \<le> p" and pn: "p < int (num_pages (disk_manager bp))"
    and f: "FetchPage p bp = Inr (r, bp')"
  shows "bp_inv bp'"
    and "pool_size bp' = pool_size bp"
    and "num_pages (disk_manager bp') = num_pages (disk_manager bp)"
    and "r = None \<Longrightarrow> bp' = bp"
    and "\<And>f. r = Some f \<Longrightarrow>
           frame_of bp' p = Some f \<and> pin_of bp' = (pin_of bp)(p := pin_of bp p + 1) \<and>
           data (pages bp' ! f) = view bp p"
    and "\<And>q g. frame_of bp q = Some g \<Longrightarrow> 0 < pin_count (pages bp ! g) \<Longrightarrow>
           frame_of bp' q = Some g \<and> data (pages bp' ! g) = data (pages bp ! g)"
    and "P Zeroed \<Longrightarrow> all_pages P bp \<Longrightarrow> all_pages P bp'"
    and "coherent W bp \<Longrightarrow> \<forall>w \<in> W. 0 < pin_of bp w \<Longrightarrow>
           coherent W bp' \<and> (\<forall>q. 0 \<le> q \<longrightarrow> view bp' q = view bp q)"
proof -
  have "bp_inv bp' \<and> pool_size bp' = pool_size bp \<and>
        num_pages (disk_manager bp') = num_pages (disk_manager bp) \<and>
        (r = None \<longrightarrow> bp' = bp) \<and>
        (\<forall>f. r = Some f \<longrightarrow>
           frame_of bp' p = Some f \<and> pin_of bp' = (pin_of bp)(p := pin_of bp p + 1) \<and>
           data (pages bp' ! f) = view bp p) \<and>
        (\<forall>q g. frame_of bp q = Some g \<longrightarrow> 0 < pin_count (pages bp ! g) \<longrightarrow>
           frame_of bp' q = Some g \<and> data (pages bp' ! g) = data (pages bp ! g)) \<and>
        (P Zeroed \<longrightarrow> all_pages P bp \<longrightarrow> all_pages P bp') \<and>
        (coherent W bp \<longrightarrow> (\<forall>w \<in> W. 0 < pin_of bp w) \<longrightarrow>
           coherent W bp' \<and> (\<forall>q. 0 \<le> q \<longrightarrow> view bp' q = view bp q))"
  proof (cases "frame_of bp p")
    case (Some f0)
    have r: "r = Some f0" "bp' = pinned_more f0 bp"
      using f FetchPage_resident[OF Some] by simp_all
    let ?pg = "(pages bp ! f0)\<lparr>pin_count := pin_count (pages bp ! f0) + 1\<rparr>"
    have pg: "pages bp' = (pages bp)[f0 := ?pg]" and pt: "page_table bp' = page_table bp"
      and dm: "disk_manager bp' = disk_manager bp" and ps: "pool_size bp' = pool_size bp"
      by (simp_all add: r pinned_more_def)
    note e = frame_update_effects[OF inv Some pg pt dm]
    have pf: "pin_of bp p = pin_count (pages bp ! f0)" using Some by (simp add: pin_of_def)
    have dt: "\<And>g. data (pages bp' ! g) = data (pages bp ! g)"
    proof -
      fix g show "data (pages bp' ! g) = data (pages bp ! g)"
        by (cases "g = f0") (simp_all add: e(3) e(4))
    qed
    have vw: "\<And>q. view bp' q = view bp q"
    proof -
      fix q
      have "view bp p = data (pages bp ! f0)" using Some by (simp add: view_def)
      then show "view bp' q = view bp q"
        using e(5)[of q] by (cases "q = p") simp_all
    qed
    have coh: "coherent W bp'" if c: "coherent W bp"
    proof (rule frame_update_coherent[OF inv Some pg pt dm c])
      show "p \<in> W \<or> is_dirty ?pg \<or> data ?pg = disk_read (disk_manager bp) p"
        using c Some unfolding coherent_def by auto
    qed simp
    have len: "f0 < length (pages bp)"
      using bp_inv_frame(1)[OF inv Some] bp_inv_length[OF inv] by simp
    have ap: "all_pages P bp'" if a: "all_pages P bp"
    proof (rule e(6)[OF a])
      show "P (data ?pg)" using a len by (simp add: all_pages_def)
    qed
    have vp: "view bp p = data (pages bp ! f0)" using Some by (simp add: view_def)
    have i: "bp_inv bp'" using pinned_more_inv[OF inv Some] r by simp
    have fo: "frame_of bp' p = Some f0" using e(1) Some by simp
    have po: "pin_of bp' = (pin_of bp)(p := pin_of bp p + 1)" using e(2) pf by simp
    show ?thesis
      using i r(1) ps dm fo po dt vp vw coh ap e(1) by simp
  next
    case None
    show ?thesis
    proof (cases rule: FetchPage_nonresident[OF inv None p0])
      case 1
      then show ?thesis using f inv by simp
    next
      case (2 f1 bp2)
      note some = 2
      let ?dt = "disk_read (disk_manager bp2) p"
      let ?b = "installed f1 p ?dt (disk_manager bp2) bp2"
      have r: "r = Some f1" "bp' = ?b" using f some(3) by simp_all
      have np2: "num_pages (disk_manager bp2) = num_pages (disk_manager bp)"
        and ps2: "pool_size bp2 = pool_size bp"
        using some(1) by (simp_all add: vacated_def)
      have dt: "?dt = disk_read (disk_manager bp) p"
        using vacated_disk[OF inv some(1) p0] None by simp
      have pn': "p < int (num_pages (disk_manager bp2))" using pn np2 by simp
      have i: "bp_inv ?b"
        by (rule install_inv[OF inv some(1) None p0 pn']) (simp_all add: np2)
      have pin0: "pin_of bp p = 0" using None by (simp add: pin_of_def)
      have st: "frame_of ?b q = Some g \<and> data (pages ?b ! g) = data (pages bp ! g)"
        if "frame_of bp q = Some g" "0 < pin_count (pages bp ! g)" for q g
        using installed_stable[OF inv some(1) None that] by simp
      have ap: "all_pages P ?b" if "P Zeroed" "all_pages P bp"
      proof (rule installed_all_pages[OF inv some(1) that(2) that(1)])
        have "all_pages P bp2" by (rule vacated_all_pages[OF inv some(1) that(2) that(1)])
        then show "P ?dt" using that(1) by (simp add: all_pages_def disk_read_pred)
      qed simp
      have vw: "coherent W ?b \<and> (\<forall>q. 0 \<le> q \<longrightarrow> view ?b q = view bp q)"
        if "coherent W bp" "\<forall>w \<in> W. 0 < pin_of bp w"
        using installed_view[OF inv some(1) None p0 _ dt that] by simp
      have ps: "pool_size ?b = pool_size bp" using ps2 by (simp add: installed_def)
      have np: "num_pages (disk_manager ?b) = num_pages (disk_manager bp)"
        using np2 by (simp add: installed_def)
      have fo: "frame_of ?b p = Some f1" by (simp add: install_frame_of[OF some(1)])
      have po: "pin_of ?b = (pin_of bp)(p := pin_of bp p + 1)"
        by (rule installed_pin_of[OF inv some(1) None])
      have da: "data (pages ?b ! f1) = view bp p"
        using dt None by (simp add: install_pages[OF some(1) inv] view_def)
      show ?thesis
        unfolding r
        using i st ap vw ps np fo po da by simp
    qed
  qed
  then show "bp_inv bp'"
    and "pool_size bp' = pool_size bp"
    and "num_pages (disk_manager bp') = num_pages (disk_manager bp)"
    and "r = None \<Longrightarrow> bp' = bp"
    and "\<And>f. r = Some f \<Longrightarrow>
           frame_of bp' p = Some f \<and> pin_of bp' = (pin_of bp)(p := pin_of bp p + 1) \<and>
           data (pages bp' ! f) = view bp p"
    and "\<And>q g. frame_of bp q = Some g \<Longrightarrow> 0 < pin_count (pages bp ! g) \<Longrightarrow>
           frame_of bp' q = Some g \<and> data (pages bp' ! g) = data (pages bp ! g)"
    and "P Zeroed \<Longrightarrow> all_pages P bp \<Longrightarrow> all_pages P bp'"
    and "coherent W bp \<Longrightarrow> \<forall>w \<in> W. 0 < pin_of bp w \<Longrightarrow>
           coherent W bp' \<and> (\<forall>q. 0 \<le> q \<longrightarrow> view bp' q = view bp q)"
    by blast+
qed

lemma FetchPage_total:
  assumes inv: "bp_inv bp" and p0: "0 \<le> p"
  shows "\<exists>r bp'. FetchPage p bp = Inr (r, bp')"
proof (cases "frame_of bp p")
  case (Some f)
  then show ?thesis using FetchPage_resident by blast
next
  case None
  show ?thesis by (cases rule: FetchPage_nonresident[OF inv None p0]) blast+
qed

lemma NewPage_total:
  assumes inv: "bp_inv bp"
  shows "\<exists>r bp'. NewPage bp = Inr (r, bp')"
  by (cases rule: NewPage_cases[OF inv]) blast+

lemma fresh_page_not_resident:
  assumes inv: "bp_inv bp"
  shows "frame_of bp (int (num_pages (disk_manager bp))) = None"
proof (cases "frame_of bp (int (num_pages (disk_manager bp)))")
  case (Some f)
  from bp_inv_frame(4)[OF inv Some] show ?thesis by simp
qed simp

lemma fresh_page_zero:
  assumes inv: "bp_inv bp"
  shows "disk_read (disk_manager bp) (int (num_pages (disk_manager bp))) = Zeroed"
  using bp_inv_file[OF inv] by (simp add: disk_read_def)

lemma NewPage_effect:
  assumes inv: "bp_inv bp" and f: "NewPage bp = Inr (r, bp')"
  shows "bp_inv bp'"
    and "pool_size bp' = pool_size bp"
    and "r = None \<Longrightarrow> bp' = bp"
    and "\<And>f pid. r = Some (f, pid) \<Longrightarrow>
           pid = int (num_pages (disk_manager bp)) \<and>
           num_pages (disk_manager bp') = Suc (num_pages (disk_manager bp)) \<and>
           frame_of bp' pid = Some f \<and> pin_of bp' = (pin_of bp)(pid := 1) \<and>
           data (pages bp' ! f) = Zeroed"
    and "\<And>q g. frame_of bp q = Some g \<Longrightarrow> 0 < pin_count (pages bp ! g) \<Longrightarrow>
           frame_of bp' q = Some g \<and> data (pages bp' ! g) = data (pages bp ! g)"
    and "P Zeroed \<Longrightarrow> all_pages P bp \<Longrightarrow> all_pages P bp'"
    and "coherent W bp \<Longrightarrow> \<forall>w \<in> W. 0 < pin_of bp w \<Longrightarrow>
           coherent W bp' \<and> (\<forall>q. 0 \<le> q \<longrightarrow> view bp' q = view bp q)"
proof -
  let ?n = "int (num_pages (disk_manager bp))"
  have "bp_inv bp' \<and> pool_size bp' = pool_size bp \<and>
        (r = None \<longrightarrow> bp' = bp) \<and>
        (\<forall>f pid. r = Some (f, pid) \<longrightarrow>
           pid = ?n \<and>
           num_pages (disk_manager bp') = Suc (num_pages (disk_manager bp)) \<and>
           frame_of bp' pid = Some f \<and> pin_of bp' = (pin_of bp)(pid := 1) \<and>
           data (pages bp' ! f) = Zeroed) \<and>
        (\<forall>q g. frame_of bp q = Some g \<longrightarrow> 0 < pin_count (pages bp ! g) \<longrightarrow>
           frame_of bp' q = Some g \<and> data (pages bp' ! g) = data (pages bp ! g)) \<and>
        (P Zeroed \<longrightarrow> all_pages P bp \<longrightarrow> all_pages P bp') \<and>
        (coherent W bp \<longrightarrow> (\<forall>w \<in> W. 0 < pin_of bp w) \<longrightarrow>
           coherent W bp' \<and> (\<forall>q. 0 \<le> q \<longrightarrow> view bp' q = view bp q))"
  proof (cases rule: NewPage_cases[OF inv])
    case 1
    then show ?thesis using f inv by simp
  next
    case (2 f1 bp2)
    note some = 2
    let ?d3 = "(disk_manager bp2)\<lparr>num_pages := Suc (num_pages (disk_manager bp))\<rparr>"
    let ?b = "installed f1 ?n Zeroed ?d3 bp2"
    have r: "r = Some (f1, ?n)" "bp' = ?b" using f some(3) by simp_all
    have ps2: "pool_size bp2 = pool_size bp" using some(1) by (simp add: vacated_def)
    note nr = fresh_page_not_resident[OF inv]
    have i: "bp_inv ?b"
      by (rule install_inv[OF inv some(1) nr]) simp_all
    have st: "frame_of ?b q = Some g \<and> data (pages ?b ! g) = data (pages bp ! g)"
      if "frame_of bp q = Some g" "0 < pin_count (pages bp ! g)" for q g
      using installed_stable[OF inv some(1) nr that] by simp
    have ap: "all_pages P ?b" if "P Zeroed" "all_pages P bp"
      by (rule installed_all_pages[OF inv some(1) that(2) that(1) that(1)]) simp
    have vw: "coherent W ?b \<and> (\<forall>q. 0 \<le> q \<longrightarrow> view ?b q = view bp q)"
      if "coherent W bp" "\<forall>w \<in> W. 0 < pin_of bp w"
      using installed_view[OF inv some(1) nr _ _ fresh_page_zero[OF inv, symmetric] that]
      by simp
    have ps: "pool_size ?b = pool_size bp" using ps2 by (simp add: installed_def)
    have np: "num_pages (disk_manager ?b) = Suc (num_pages (disk_manager bp))"
      by (simp add: installed_def)
    have fo: "frame_of ?b ?n = Some f1" by (simp add: install_frame_of[OF some(1)])
    have "pin_of bp ?n = 0" using nr by (simp add: pin_of_def)
    then have po: "pin_of ?b = (pin_of bp)(?n := 1)"
      using installed_pin_of[OF inv some(1) nr, of Zeroed ?d3] by simp
    have da: "data (pages ?b ! f1) = Zeroed"
      by (simp add: install_pages[OF some(1) inv])
    show ?thesis
      unfolding r
      using i st ap vw ps np fo po da by simp
  qed
  then show "bp_inv bp'"
    and "pool_size bp' = pool_size bp"
    and "r = None \<Longrightarrow> bp' = bp"
    and "\<And>f pid. r = Some (f, pid) \<Longrightarrow>
           pid = int (num_pages (disk_manager bp)) \<and>
           num_pages (disk_manager bp') = Suc (num_pages (disk_manager bp)) \<and>
           frame_of bp' pid = Some f \<and> pin_of bp' = (pin_of bp)(pid := 1) \<and>
           data (pages bp' ! f) = Zeroed"
    and "\<And>q g. frame_of bp q = Some g \<Longrightarrow> 0 < pin_count (pages bp ! g) \<Longrightarrow>
           frame_of bp' q = Some g \<and> data (pages bp' ! g) = data (pages bp ! g)"
    and "P Zeroed \<Longrightarrow> all_pages P bp \<Longrightarrow> all_pages P bp'"
    and "coherent W bp \<Longrightarrow> \<forall>w \<in> W. 0 < pin_of bp w \<Longrightarrow>
           coherent W bp' \<and> (\<forall>q. 0 \<le> q \<longrightarrow> view bp' q = view bp q)"
    by blast+
qed

lemma UnpinPage_effect:
  assumes inv: "bp_inv bp" and fp: "frame_of bp p = Some f" and pin: "0 < pin_count (pages bp ! f)"
  shows "UnpinPage p dirty bp = (True, unpinned f dirty bp)"
    and "bp_inv (unpinned f dirty bp)"
    and "pool_size (unpinned f dirty bp) = pool_size bp"
    and "disk_manager (unpinned f dirty bp) = disk_manager bp"
    and "frame_of (unpinned f dirty bp) = frame_of bp"
    and "pin_of (unpinned f dirty bp) = (pin_of bp)(p := pin_of bp p - 1)"
    and "\<And>g. data (pages (unpinned f dirty bp) ! g) = data (pages bp ! g)"
    and "\<And>q. view (unpinned f dirty bp) q = view bp q"
    and "all_pages P bp \<Longrightarrow> all_pages P (unpinned f dirty bp)"
    and "coherent W bp \<Longrightarrow> coherent (if dirty then W - {p} else W) (unpinned f dirty bp)"
proof -
  let ?pg = "(pages bp ! f)\<lparr>pin_count := pin_count (pages bp ! f) - 1,
                              is_dirty := dirty \<or> is_dirty (pages bp ! f)\<rparr>"
  let ?b = "unpinned f dirty bp"
  have pg: "pages ?b = (pages bp)[f := ?pg]" and pt: "page_table ?b = page_table bp"
    and dm: "disk_manager ?b = disk_manager bp"
    by (simp_all add: unpinned_def)
  note e = frame_update_effects[OF inv fp pg pt dm]
  have len: "f < length (pages bp)"
    using bp_inv_frame(1)[OF inv fp] bp_inv_length[OF inv] by simp
  have pf: "pin_of bp p = pin_count (pages bp ! f)" using fp by (simp add: pin_of_def)
  show "UnpinPage p dirty bp = (True, ?b)" using fp pin by (simp add: UnpinPage_cases)
  show "bp_inv ?b" by (rule unpinned_inv[OF inv fp pin])
  show "pool_size ?b = pool_size bp" by (simp add: unpinned_def)
  show "disk_manager ?b = disk_manager bp" by (rule dm)
  show "frame_of ?b = frame_of bp" by (rule e(1))
  show "pin_of ?b = (pin_of bp)(p := pin_of bp p - 1)" using e(2) pf by simp
  show "data (pages ?b ! g) = data (pages bp ! g)" for g
    by (cases "g = f") (simp_all add: e(3) e(4))
  have vp: "view bp p = data (pages bp ! f)" using fp by (simp add: view_def)
  show "view ?b q = view bp q" for q using e(5)[of q] vp by (cases "q = p") simp_all
  show "all_pages P ?b" if a: "all_pages P bp"
  proof (rule e(6)[OF a])
    show "P (data ?pg)" using a len by (simp add: all_pages_def)
  qed
  show "coherent (if dirty then W - {p} else W) ?b" if c: "coherent W bp"
  proof (rule frame_update_coherent[OF inv fp pg pt dm c])
    show "p \<in> (if dirty then W - {p} else W) \<or> is_dirty ?pg \<or>
            data ?pg = disk_read (disk_manager bp) p"
      using c fp unfolding coherent_def by auto
    show "W - {p} \<subseteq> (if dirty then W - {p} else W)" by auto
  qed
qed

lemma ptr_ok_mono: "ptr_ok n p \<Longrightarrow> n \<le> m \<Longrightarrow> ptr_ok m p"
  by (auto simp: ptr_ok_def)

lemma ids_ok_mono: "ids_ok n pg \<Longrightarrow> n \<le> m \<Longrightarrow> ids_ok m pg"
  by (cases pg) (auto simp: ptr_ok_def)

lemma ids_ok_Zeroed: "ids_ok n Zeroed"
  by simp

lemma all_pages_mono:
  "all_pages P bp \<Longrightarrow> (\<And>pg. P pg \<Longrightarrow> Q pg) \<Longrightarrow> all_pages Q bp"
  by (auto simp: all_pages_def)

lemma bump_cancel [simp]: "bump p (- d) (bump p d P) = P"
  by (auto simp: bump_def)

lemma bump_cancel' [simp]: "bump p d (bump p (- d) P) = P"
  by (auto simp: bump_def)

lemma bump_apply: "bump p d P q = (if q = p then P p + d else P q)"
  by (simp add: bump_def)

lemma coherent_antimono: "coherent W bp \<Longrightarrow> W \<subseteq> W' \<Longrightarrow> coherent W' bp"
  unfolding coherent_def by blast

lemma quiescent_pins:
  assumes "quiescent t"
  shows "pin_of (buffer_pool_manager t) p = 0"
proof (cases "frame_of (buffer_pool_manager t) p")
  case None
  then show ?thesis by (simp add: pin_of_def)
next
  case (Some f)
  have "bp_inv (buffer_pool_manager t)" using assms by (simp add: quiescent_def tinv_def)
  then have "(p, f) \<in> set (page_table (buffer_pool_manager t))"
    using Some by (simp add: frame_of_iff bp_inv_distinct)
  then have "pin_count (pages (buffer_pool_manager t) ! f) = 0"
    using assms unfolding quiescent_def by fastforce
  then show ?thesis using Some by (simp add: pin_of_def)
qed

lemma quiescentI:
  assumes "tinv t" "\<And>p. pin_of (buffer_pool_manager t) p = 0" "coherent {} (buffer_pool_manager t)"
  shows "quiescent t"
proof -
  have inv: "bp_inv (buffer_pool_manager t)" using assms(1) by (simp add: tinv_def)
  have "pin_count (pages (buffer_pool_manager t) ! snd pg) = 0"
    if "pg \<in> set (page_table (buffer_pool_manager t))" for pg
  proof -
    have "frame_of (buffer_pool_manager t) (fst pg) = Some (snd pg)"
      using that by (simp add: frame_of_iff bp_inv_distinct[OF inv])
    then show ?thesis using assms(2)[of "fst pg"] by (simp add: pin_of_def)
  qed
  then show ?thesis using assms(1,3) by (simp add: quiescent_def)
qed

lemma tinv_bp: "tinv t \<Longrightarrow> bp_inv (buffer_pool_manager t)"
  by (simp add: tinv_def)

lemma tinv_frame_ok:
  assumes "tinv t" "frame_of (buffer_pool_manager t) p = Some f"
  shows "ids_ok (tnum t) (frame_data f t)" "frame_page_id f t = p" "0 \<le> p" "p < int (tnum t)"
proof -
  have inv: "bp_inv (buffer_pool_manager t)" using assms(1) by (rule tinv_bp)
  note fr = bp_inv_frame[OF inv assms(2)]
  have "f < length (pages (buffer_pool_manager t))" using fr(1) bp_inv_length[OF inv] by simp
  then have "pages (buffer_pool_manager t) ! f \<in> set (pages (buffer_pool_manager t))" by simp
  then show "ids_ok (tnum t) (frame_data f t)"
    using assms(1) unfolding tinv_def all_pages_def frame_data_def by blast
  show "frame_page_id f t = p" using fr(2) by (simp add: frame_page_id_def)
  show "0 \<le> p" by (rule fr(3))
  show "p < int (tnum t)" using fr(4) by (simp add: tnum_def)
qed

lemma view_resident:
  "frame_of (buffer_pool_manager t) p = Some f \<Longrightarrow> view (buffer_pool_manager t) p = frame_data f t"
  by (simp add: view_def frame_data_def)

lemma tree_fetch_effect:
  assumes ti: "tinv t" and p0: "0 \<le> p" and pn: "p < int (tnum t)"
    and f: "tree_fetch p t = Inr (r, t')"
  shows "tinv t'"
    and "root_page_id t' = root_page_id t"
    and "tnum t' = tnum t"
    and "pool_size (buffer_pool_manager t') = pool_size (buffer_pool_manager t)"
    and "r = None \<Longrightarrow> t' = t"
    and "\<And>f. r = Some f \<Longrightarrow>
           frame_of (buffer_pool_manager t') p = Some f \<and>
           pin_of (buffer_pool_manager t') = bump p 1 (pin_of (buffer_pool_manager t)) \<and>
           frame_data f t' = view (buffer_pool_manager t) p"
    and "\<And>q g. holds t g q \<Longrightarrow>
           frame_of (buffer_pool_manager t') q = Some g \<and> frame_data g t' = frame_data g t"
    and "coherent W (buffer_pool_manager t) \<Longrightarrow> \<forall>w \<in> W. 0 < pin_of (buffer_pool_manager t) w \<Longrightarrow>
           coherent W (buffer_pool_manager t') \<and>
           (\<forall>q. 0 \<le> q \<longrightarrow> view (buffer_pool_manager t') q = view (buffer_pool_manager t) q)"
proof -
  let ?bp = "buffer_pool_manager t"
  have inv: "bp_inv ?bp" using ti by (rule tinv_bp)
  obtain bp' where fb: "FetchPage p ?bp = Inr (r, bp')" and t': "t' = t\<lparr>buffer_pool_manager := bp'\<rparr>"
    using f by (auto simp: tree_fetch_def split: sum.splits prod.splits)
  have pn': "p < int (num_pages (disk_manager ?bp))" using pn by (simp add: tnum_def)
  note e = FetchPage_effect[OF inv p0 pn' fb]
  have bp': "buffer_pool_manager t' = bp'" by (simp add: t')
  show n: "tnum t' = tnum t" using e(3) by (simp add: tnum_def bp')
  show "root_page_id t' = root_page_id t" by (simp add: t')
  show "pool_size (buffer_pool_manager t') = pool_size ?bp" using e(2) by (simp add: bp')
  show "r = None \<Longrightarrow> t' = t" using e(4) by (simp add: t')
  have "all_pages (ids_ok (tnum t)) bp'"
    using e(7)[of "ids_ok (tnum t)"] ti by (simp add: tinv_def)
  then show "tinv t'" using e(1) ti n unfolding tinv_def by (simp add: t')
  show "frame_of (buffer_pool_manager t') p = Some f \<and>
        pin_of (buffer_pool_manager t') = bump p 1 (pin_of ?bp) \<and>
        frame_data f t' = view ?bp p" if "r = Some f" for f
    using e(5)[OF that] by (simp add: bp' bump_def frame_data_def)
  show "frame_of (buffer_pool_manager t') q = Some g \<and> frame_data g t' = frame_data g t"
    if "holds t g q" for q g
  proof -
    have a: "frame_of ?bp q = Some g" and b: "0 < pin_of ?bp q" using that by (simp_all add: holds_def)
    then have "0 < pin_count (pages ?bp ! g)" by (simp add: pin_of_def)
    from e(6)[OF a this] show ?thesis by (simp add: bp' frame_data_def)
  qed
  show "coherent W (buffer_pool_manager t') \<and>
        (\<forall>q. 0 \<le> q \<longrightarrow> view (buffer_pool_manager t') q = view ?bp q)"
    if "coherent W ?bp" "\<forall>w \<in> W. 0 < pin_of ?bp w"
    using e(8)[OF that] by (simp add: bp')
qed

lemma tree_fetch_total:
  assumes "tinv t" "0 \<le> p"
  shows "\<exists>r t'. tree_fetch p t = Inr (r, t')"
proof -
  obtain r bp' where "FetchPage p (buffer_pool_manager t) = Inr (r, bp')"
    using FetchPage_total[OF tinv_bp[OF assms(1)] assms(2)] by blast
  then show ?thesis by (simp add: tree_fetch_def)
qed

lemma tree_new_page_effect:
  assumes ti: "tinv t" and f: "tree_new_page t = Inr (r, t')"
  shows "root_page_id t' = root_page_id t"
    and "pool_size (buffer_pool_manager t') = pool_size (buffer_pool_manager t)"
    and "r = None \<Longrightarrow> t' = t"
    and "\<And>f pid. r = Some (f, pid) \<Longrightarrow>
           pid = int (tnum t) \<and> tnum t' = Suc (tnum t) \<and>
           frame_of (buffer_pool_manager t') pid = Some f \<and>
           pin_of (buffer_pool_manager t') = bump pid 1 (pin_of (buffer_pool_manager t)) \<and>
           frame_data f t' = Zeroed"
    and "tinv t'"
    and "tnum t \<le> tnum t'"
    and "\<And>q g. holds t g q \<Longrightarrow>
           frame_of (buffer_pool_manager t') q = Some g \<and> frame_data g t' = frame_data g t"
    and "coherent W (buffer_pool_manager t) \<Longrightarrow> \<forall>w \<in> W. 0 < pin_of (buffer_pool_manager t) w \<Longrightarrow>
           coherent W (buffer_pool_manager t') \<and>
           (\<forall>q. 0 \<le> q \<longrightarrow> view (buffer_pool_manager t') q = view (buffer_pool_manager t) q)"
proof -
  let ?bp = "buffer_pool_manager t"
  have inv: "bp_inv ?bp" using ti by (rule tinv_bp)
  obtain bp' where fb: "NewPage ?bp = Inr (r, bp')" and t': "t' = t\<lparr>buffer_pool_manager := bp'\<rparr>"
    using f by (auto simp: tree_new_page_def split: sum.splits prod.splits)
  note e = NewPage_effect[OF inv fb]
  have bp': "buffer_pool_manager t' = bp'" by (simp add: t')
  show "root_page_id t' = root_page_id t" by (simp add: t')
  show "pool_size (buffer_pool_manager t') = pool_size ?bp" using e(2) by (simp add: bp')
  show "r = None \<Longrightarrow> t' = t" using e(3) by (simp add: t')
  have pz: "pin_of ?bp (int (tnum t)) = 0"
    using fresh_page_not_resident[OF inv] by (simp add: pin_of_def tnum_def)
  show s: "pid = int (tnum t) \<and> tnum t' = Suc (tnum t) \<and>
           frame_of (buffer_pool_manager t') pid = Some f \<and>
           pin_of (buffer_pool_manager t') = bump pid 1 (pin_of ?bp) \<and>
           frame_data f t' = Zeroed" if "r = Some (f, pid)" for f pid
    using e(4)[OF that] pz by (auto simp: bp' tnum_def bump_def frame_data_def)
  show n: "tnum t \<le> tnum t'"
  proof (cases r)
    case None
    then show ?thesis using e(3) by (simp add: t')
  next
    case (Some a)
    then show ?thesis using s[of "fst a" "snd a"] by simp
  qed
  have "all_pages (ids_ok (tnum t)) bp'"
    using e(6)[of "ids_ok (tnum t)"] ti by (simp add: tinv_def)
  then have "all_pages (ids_ok (tnum t')) bp'"
  proof (rule all_pages_mono)
    fix pg assume "ids_ok (tnum t) pg"
    then show "ids_ok (tnum t') pg" using n by (rule ids_ok_mono)
  qed
  moreover have "ptr_ok (tnum t') (root_page_id t')"
    using ti n ptr_ok_mono unfolding tinv_def by (auto simp: t')
  ultimately show "tinv t'" using e(1) unfolding tinv_def by (simp add: bp')
  show "frame_of (buffer_pool_manager t') q = Some g \<and> frame_data g t' = frame_data g t"
    if "holds t g q" for q g
  proof -
    have a: "frame_of ?bp q = Some g" and b: "0 < pin_of ?bp q" using that by (simp_all add: holds_def)
    then have "0 < pin_count (pages ?bp ! g)" by (simp add: pin_of_def)
    from e(5)[OF a this] show ?thesis by (simp add: bp' frame_data_def)
  qed
  show "coherent W (buffer_pool_manager t') \<and>
        (\<forall>q. 0 \<le> q \<longrightarrow> view (buffer_pool_manager t') q = view ?bp q)"
    if "coherent W ?bp" "\<forall>w \<in> W. 0 < pin_of ?bp w"
    using e(7)[OF that] by (simp add: bp')
qed

lemma bp_inv_data:
  assumes "bp_inv bp"
    and "pool_size bp' = pool_size bp" "disk_manager bp' = disk_manager bp"
    and "page_table bp' = page_table bp" "free_list bp' = free_list bp" "lru_list bp' = lru_list bp"
    and "length (pages bp') = length (pages bp)"
    and "\<And>g. page_id (pages bp' ! g) = page_id (pages bp ! g)"
    and "\<And>g. pin_count (pages bp' ! g) = pin_count (pages bp ! g)"
  shows "bp_inv bp'"
proof -
  have "bp_inv bp' = bp_inv bp"
    unfolding bp_inv_def resident_frames_def by (simp only: assms(2-))
  then show ?thesis using assms(1) by simp
qed

lemma tree_unpin_effect:
  assumes ti: "tinv t" and h: "holds t f p"
  shows "tinv (tree_unpin p d t)"
    and "root_page_id (tree_unpin p d t) = root_page_id t"
    and "tnum (tree_unpin p d t) = tnum t"
    and "pool_size (buffer_pool_manager (tree_unpin p d t)) = pool_size (buffer_pool_manager t)"
    and "frame_of (buffer_pool_manager (tree_unpin p d t)) = frame_of (buffer_pool_manager t)"
    and "pin_of (buffer_pool_manager (tree_unpin p d t)) = bump p (- 1) (pin_of (buffer_pool_manager t))"
    and "\<And>g. frame_data g (tree_unpin p d t) = frame_data g t"
    and "\<And>q. view (buffer_pool_manager (tree_unpin p d t)) q = view (buffer_pool_manager t) q"
    and "coherent W (buffer_pool_manager t) \<Longrightarrow>
           coherent (if d then W - {p} else W) (buffer_pool_manager (tree_unpin p d t))"
proof -
  let ?bp = "buffer_pool_manager t"
  have inv: "bp_inv ?bp" using ti by (rule tinv_bp)
  have fp: "frame_of ?bp p = Some f" and pp: "0 < pin_of ?bp p" using h by (simp_all add: holds_def)
  have pin: "0 < pin_count (pages ?bp ! f)" using fp pp by (simp add: pin_of_def)
  note e = UnpinPage_effect[OF inv fp pin, where dirty = d]
  have t': "tree_unpin p d t = t\<lparr>buffer_pool_manager := unpinned f d ?bp\<rparr>"
    using e(1) by (simp add: tree_unpin_def)
  show "root_page_id (tree_unpin p d t) = root_page_id t" by (simp add: t')
  show n: "tnum (tree_unpin p d t) = tnum t" using e(4) by (simp add: t' tnum_def)
  show "pool_size (buffer_pool_manager (tree_unpin p d t)) = pool_size ?bp"
    using e(3) by (simp add: t')
  show "frame_of (buffer_pool_manager (tree_unpin p d t)) = frame_of ?bp" using e(5) by (simp add: t')
  show "pin_of (buffer_pool_manager (tree_unpin p d t)) = bump p (- 1) (pin_of ?bp)"
    using e(6) by (simp add: t' bump_def)
  show "frame_data g (tree_unpin p d t) = frame_data g t" for g
    using e(7)[of g] by (simp add: t' frame_data_def)
  show "view (buffer_pool_manager (tree_unpin p d t)) q = view ?bp q" for q
    using e(8)[of q] by (simp add: t')
  have "all_pages (ids_ok (tnum t)) (unpinned f d ?bp)"
    using e(9)[of "ids_ok (tnum t)"] ti by (simp add: tinv_def)
  then show "tinv (tree_unpin p d t)" using e(2) ti n unfolding tinv_def by (simp add: t')
  show "coherent (if d then W - {p} else W) (buffer_pool_manager (tree_unpin p d t))"
    if "coherent W ?bp"
    using e(10)[OF that] by (simp add: t')
qed

lemma set_frame_data_effect:
  assumes ti: "tinv t" and fp: "frame_of (buffer_pool_manager t) p = Some f"
    and ok: "ids_ok (tnum t) pg"
  shows "tinv (set_frame_data f pg t)"
    and "root_page_id (set_frame_data f pg t) = root_page_id t"
    and "tnum (set_frame_data f pg t) = tnum t"
    and "pool_size (buffer_pool_manager (set_frame_data f pg t)) = pool_size (buffer_pool_manager t)"
    and "frame_of (buffer_pool_manager (set_frame_data f pg t)) = frame_of (buffer_pool_manager t)"
    and "pin_of (buffer_pool_manager (set_frame_data f pg t)) = pin_of (buffer_pool_manager t)"
    and "\<And>g. frame_data g (set_frame_data f pg t) = (if g = f then pg else frame_data g t)"
    and "\<And>q. view (buffer_pool_manager (set_frame_data f pg t)) q
              = (if q = p then pg else view (buffer_pool_manager t) q)"
    and "coherent W (buffer_pool_manager t) \<Longrightarrow>
           coherent (insert p W) (buffer_pool_manager (set_frame_data f pg t))"
proof -
  let ?bp = "buffer_pool_manager t"
  let ?pg = "(pages ?bp ! f)\<lparr>data := pg\<rparr>"
  let ?b = "?bp\<lparr>pages := (pages ?bp)[f := ?pg]\<rparr>"
  have inv: "bp_inv ?bp" using ti by (rule tinv_bp)
  have t': "set_frame_data f pg t = t\<lparr>buffer_pool_manager := ?b\<rparr>"
    by (simp add: set_frame_data_def Let_def)
  have pgs: "pages ?b = (pages ?bp)[f := ?pg]" and pt: "page_table ?b = page_table ?bp"
    and dm: "disk_manager ?b = disk_manager ?bp" by simp_all
  note e = frame_update_effects[OF inv fp pgs pt dm]
  have len: "f < length (pages ?bp)"
    using bp_inv_frame(1)[OF inv fp] bp_inv_length[OF inv] by simp
  have i: "bp_inv ?b"
  proof (rule bp_inv_data[OF inv])
    show "length (pages ?b) = length (pages ?bp)" by simp
    show "page_id (pages ?b ! g) = page_id (pages ?bp ! g)" for g
      using len by (cases "g = f") simp_all
    show "pin_count (pages ?b ! g) = pin_count (pages ?bp ! g)" for g
      using len by (cases "g = f") simp_all
  qed simp_all
  have ap: "all_pages (ids_ok (tnum t)) ?b"
    using e(6)[of "ids_ok (tnum t)"] ti ok by (simp add: tinv_def)
  show "tinv (set_frame_data f pg t)"
    using i ap ti unfolding tinv_def by (simp add: t' tnum_def)
  show "root_page_id (set_frame_data f pg t) = root_page_id t" by (simp add: t')
  show n: "tnum (set_frame_data f pg t) = tnum t" by (simp add: t' tnum_def)
  show "pool_size (buffer_pool_manager (set_frame_data f pg t)) = pool_size ?bp" by (simp add: t')
  show "frame_of (buffer_pool_manager (set_frame_data f pg t)) = frame_of ?bp"
    using e(1) by (simp add: t')
  have pf: "pin_of ?bp p = pin_count (pages ?bp ! f)" using fp by (simp add: pin_of_def)
  show "pin_of (buffer_pool_manager (set_frame_data f pg t)) = pin_of ?bp"
    using e(2) pf by (simp add: t' fun_upd_idem)
  show "frame_data g (set_frame_data f pg t) = (if g = f then pg else frame_data g t)" for g
    using e(3)[of g] e(4) by (simp add: t' frame_data_def)
  show "view (buffer_pool_manager (set_frame_data f pg t)) q = (if q = p then pg else view ?bp q)" for q
    using e(5)[of q] by (simp add: t')
  show "coherent (insert p W) (buffer_pool_manager (set_frame_data f pg t))"
    if c: "coherent W ?bp"
  proof -
    have "coherent (insert p W) ?b"
      by (rule frame_update_coherent[OF inv fp pgs pt dm c]) auto
    then show ?thesis by (simp add: t')
  qed
qed










lemma root_set_frame_data [simp]: "root_page_id (set_frame_data f pg t) = root_page_id t"
  by (simp add: set_frame_data_def Let_def)

lemma root_tree_unpin [simp]: "root_page_id (tree_unpin pid d t) = root_page_id t"
  by (simp add: tree_unpin_def)





















lemma root_kept_refl: "root_page_id t' = root_page_id t \<Longrightarrow> root_kept t t'"
  by (simp add: root_kept_def)










lemma sorted_keys_nth:
  assumes "sorted (map key es)" "i \<le> j" "j < length es"
  shows "key (es ! i) \<le> key (es ! j)"
  using sorted_nth_mono[OF assms(1), of i j] assms(2,3) by simp

lemma LeafFindKey_loop_spec:
  assumes "sorted (map key es)" "lo \<le> hi" "hi \<le> length es"
    and "\<forall>i<lo. key (es ! i) < k"
    and "\<forall>i. hi \<le> i \<longrightarrow> i < length es \<longrightarrow> k \<le> key (es ! i)"
  shows "LeafFindKey_loop es k lo hi \<le> length es \<and>
         (\<forall>i < LeafFindKey_loop es k lo hi. key (es ! i) < k) \<and>
         (\<forall>i. LeafFindKey_loop es k lo hi \<le> i \<longrightarrow> i < length es \<longrightarrow> k \<le> key (es ! i))"
  using assms
proof (induction es k lo hi rule: LeafFindKey_loop.induct)
  case (1 es k lo hi)
  let ?m = "(lo + hi) div 2"
  show ?case
  proof (cases "lo < hi")
    case False
    have e1: "LeafFindKey_loop es k lo hi = lo"
      using False by (simp add: LeafFindKey_loop.simps[of es k lo hi])
    have e2: "lo = hi" using False "1.prems"(2) by simp
    show ?thesis unfolding e1 using "1.prems" e2 by simp
  next
    case True
    then have m: "lo \<le> ?m" "?m < hi" by simp_all
    then have ml: "?m < length es" using "1.prems"(3) by simp
    show ?thesis
    proof (cases "key (es ! ?m) < k")
      case lt: True
      have e: "LeafFindKey_loop es k lo hi = LeafFindKey_loop es k (?m + 1) hi"
        using True lt by (simp add: LeafFindKey_loop.simps[of es k lo hi])
      have a: "\<forall>i<?m + 1. key (es ! i) < k"
      proof (intro allI impI)
        fix i assume "i < ?m + 1"
        then have "i \<le> ?m" by simp
        from sorted_keys_nth[OF "1.prems"(1) this ml] lt show "key (es ! i) < k" by simp
      qed
      show ?thesis unfolding e
        by (rule "1.IH"(1)[OF True lt "1.prems"(1) _ "1.prems"(3) a "1.prems"(5)]) (use m in simp)
    next
      case ge: False
      have e: "LeafFindKey_loop es k lo hi = LeafFindKey_loop es k lo ?m"
        using True ge by (simp add: LeafFindKey_loop.simps[of es k lo hi])
      have a: "\<forall>i. ?m \<le> i \<longrightarrow> i < length es \<longrightarrow> k \<le> key (es ! i)"
      proof (intro allI impI)
        fix i assume "?m \<le> i" "i < length es"
        from sorted_keys_nth[OF "1.prems"(1) this] ge show "k \<le> key (es ! i)" by simp
      qed
      show ?thesis unfolding e
        by (rule "1.IH"(2)[OF True ge "1.prems"(1) m(1) _ "1.prems"(4) a]) (use ml in simp)
    qed
  qed
qed

lemma LeafFindKey_spec:
  assumes "sorted (map key es)"
  shows "LeafFindKey es k \<le> length es"
    and "\<And>i. i < LeafFindKey es k \<Longrightarrow> key (es ! i) < k"
    and "\<And>i. LeafFindKey es k \<le> i \<Longrightarrow> i < length es \<Longrightarrow> k \<le> key (es ! i)"
  using LeafFindKey_loop_spec[OF assms, where lo = 0 and hi = "length es" and k = k]
  by (simp_all add: LeafFindKey_def)

lemma LeafFindKey_found_iff:
  assumes "sorted (map key es)"
  shows "(LeafFindKey es k < length es \<and> key (es ! LeafFindKey es k) = k) = (k \<in> key ` set es)"
proof
  assume "LeafFindKey es k < length es \<and> key (es ! LeafFindKey es k) = k"
  then show "k \<in> key ` set es" by (metis imageI nth_mem)
next
  assume "k \<in> key ` set es"
  then obtain j where j: "j < length es" "key (es ! j) = k"
    by (auto simp: in_set_conv_nth)
  note s = LeafFindKey_spec[OF assms]
  have "\<not> j < LeafFindKey es k" using s(2)[of j k] j(2) by auto
  then have le: "LeafFindKey es k \<le> j" by simp
  then have l: "LeafFindKey es k < length es" using j(1) by simp
  have "key (es ! LeafFindKey es k) \<le> k" using sorted_keys_nth[OF assms le j(1)] j(2) by simp
  moreover have "k \<le> key (es ! LeafFindKey es k)" using s(3)[of k "LeafFindKey es k"] l by simp
  ultimately show "LeafFindKey es k < length es \<and> key (es ! LeafFindKey es k) = k"
    using l by simp
qed

lemma zero_first_at:
  "r < length es \<Longrightarrow> key (es ! r) = k \<Longrightarrow> \<forall>i<r. key (es ! i) \<noteq> k
     \<Longrightarrow> zero_first k es = es[r := (es ! r)\<lparr>value_bytes := zero_value\<rparr>]"
proof (induction es arbitrary: r)
  case Nil
  then show ?case by simp
next
  case (Cons e es)
  show ?case
  proof (cases r)
    case 0
    then show ?thesis using Cons.prems by simp
  next
    case (Suc r')
    have ne: "key e \<noteq> k" using Cons.prems(3) Suc by auto
    have "\<forall>i<r'. key (es ! i) \<noteq> k"
    proof (intro allI impI)
      fix i assume "i < r'"
      then have "Suc i < r" using Suc by simp
      from Cons.prems(3)[rule_format, OF this] show "key (es ! i) \<noteq> k" by simp
    qed
    from Cons.IH[OF _ _ this, of ] Cons.prems(1,2) Suc ne show ?thesis by simp
  qed
qed

lemma zero_first_LeafFindKey:
  assumes "sorted (map key es)" "k \<in> key ` set es"
  shows "es[LeafFindKey es k := (es ! LeafFindKey es k)\<lparr>value_bytes := zero_value\<rparr>]
           = zero_first k es"
proof -
  have f: "LeafFindKey es k < length es" "key (es ! LeafFindKey es k) = k"
    using LeafFindKey_found_iff[OF assms(1), of k] assms(2) by simp_all
  have "\<forall>i<LeafFindKey es k. key (es ! i) \<noteq> k"
    using LeafFindKey_spec(2)[OF assms(1), where k = k] by fastforce
  from zero_first_at[OF f this] show ?thesis by simp
qed

lemma eval_tomb_store:
  "fresh_store 2 2 [OpInsert 1 ''a'', OpRemove 1] = Inr tomb_store"
  by code_simp

lemma frame_page_id_set_frame_data:
  "frame_page_id f (set_frame_data g pg t) = frame_page_id f t"
proof (cases "g < length (pages (buffer_pool_manager t))")
  case True
  then show ?thesis
    by (cases "f = g") (simp_all add: frame_page_id_def set_frame_data_def Let_def)
next
  case False
  then have "(pages (buffer_pool_manager t))[g := (pages (buffer_pool_manager t) ! g)\<lparr>data := pg\<rparr>]
               = pages (buffer_pool_manager t)"
    by (simp add: list_update_beyond)
  then show ?thesis by (simp add: frame_page_id_def set_frame_data_def Let_def)
qed

lemma eval_long_value:
  "outcomes_from 2 [OpInsert 14 (replicate 130 CHR ''x''), OpSearch 14]
     (leaf_store (entries_of keys30 ''old''))
     = Inr [Flag True, Found (Some ''old'')]"
  by code_simp

lemma eval_empty_value:
  "outcomes_from 2 [OpInsert 14 [], OpSearch 14, OpScan 14 14]
     (leaf_store (entries_of keys30 ''old''))
     = Inr [Flag True, Found (Some ''old''), Pairs [(14, ''old'')]]"
  by code_simp

section \<open>Evaluation lemmas\<close>

lemmas bpm_defs = NewPage_def FindVictimPage_def EvictVictim_def AllocatePage_def
  UnpinPage_def FetchPage_def ReadPage_def WritePage_def

lemmas tree_defs = tree_new_page_def tree_unpin_def set_frame_data_def frame_data_def
  frame_page_id_def tree_fetch_def UpdateMetaPage_def LeafInsert_def

lemmas const_defs = INVALID_PAGE_ID_def META_PAGE_ID_def LEAF_MAX_ENTRIES_def PAGE_SIZE_def
  LEAF_HEADER_SIZE_def LEAF_ENTRY_SIZE_def VALUE_SIZE_def INTERNAL_MAX_KEYS_def
  INTERNAL_HEADER_SIZE_def

lemma leaf_max_entries_30: "LEAF_MAX_ENTRIES = 30"
  by (simp add: const_defs)

lemma internal_max_keys_510: "INTERNAL_MAX_KEYS = 510"
  by (simp add: const_defs)

lemma open_fresh_64:
  "OpenStore 64 [] =
     Inr \<lparr>buffer_pool_manager = NewBufferPoolManager 64 (OpenDisk []), root_page_id = - 1\<rparr>"
  by (simp add: OpenStore_def NewBPlusTree_def LoadMetaPage_def GetNumPages_def
      NewBufferPoolManager_def OpenDisk_def INVALID_PAGE_ID_def)

lemma upt_2_64: "[0..<64] = 0 # 1 # [2..<64]"
  by code_simp

lemma replicate_64: "replicate 64 x = x # x # replicate 62 x"
proof -
  have "(64::nat) = Suc (Suc 62)" by simp
  then show ?thesis by (simp only: replicate_Suc)
qed

lemma replicate_30: "replicate 30 x = x # replicate 29 x"
proof -
  have "(30::nat) = Suc 29" by simp
  then show ?thesis by (simp only: replicate_Suc)
qed

lemma replicate_29: "replicate 29 x = x # replicate 28 x"
proof -
  have "(29::nat) = Suc 28" by simp
  then show ?thesis by (simp only: replicate_Suc)
qed

lemma first_insert:
  "Insert fuel k v
     \<lparr>buffer_pool_manager = NewBufferPoolManager 64 (OpenDisk []), root_page_id = - 1\<rparr>
     = Inr (True, leaf_store (leaf_insert_entries [] k v))"
  apply (simp add: Insert_def NewBufferPoolManager_def OpenDisk_def upt_2_64 replicate_64
      const_defs del: upt_Suc)
  apply (simp add: bpm_defs tree_defs const_defs Let_def leaf_store_def empty_frame_def)
  done

lemma room_insert:
  "length es < 30 \<Longrightarrow>
   Insert (Suc n) k v (leaf_store es) = Inr (True, leaf_store (leaf_insert_entries es k v))"
  by (simp add: Insert_def FindLeafPage_def leaf_store_def const_defs bpm_defs tree_defs Let_def)

lemma length_leaf_insert_entries: "length (leaf_insert_entries es k v) \<le> Suc (length es)"
  by (auto simp: leaf_insert_entries_def Let_def min_def)

lemma run_inserts_leaf_store:
  "length es + length ks \<le> 30 \<Longrightarrow>
   run_ops (Suc n) (inserts ks v) (leaf_store es)
     = Inr (replicate (length ks) (Flag True),
            leaf_store (foldl (\<lambda>es k. leaf_insert_entries es k v) es ks))"
proof (induction ks arbitrary: es)
  case Nil
  then show ?case by (simp add: inserts_def)
next
  case (Cons k ks)
  have l: "length es < 30" using Cons.prems by simp
  have "length (leaf_insert_entries es k v) + length ks \<le> 30"
    using Cons.prems length_leaf_insert_entries[of es k v] by simp
  from Cons.IH[OF this] show ?case
    using room_insert[OF l, of n k v] by (simp add: inserts_def)
qed

lemma run_inserts_fresh:
  assumes "length ks \<le> 29"
  shows "run_ops (Suc n) (inserts (k # ks) v)
           \<lparr>buffer_pool_manager = NewBufferPoolManager 64 (OpenDisk []), root_page_id = - 1\<rparr>
         = Inr (replicate (Suc (length ks)) (Flag True),
                leaf_store (foldl (\<lambda>es k. leaf_insert_entries es k v) [] (k # ks)))"
proof -
  have "length (leaf_insert_entries [] k v) + length ks \<le> 30"
    using assms length_leaf_insert_entries[of "[]" k v] by simp
  from run_inserts_leaf_store[OF this, of n v] show ?thesis
    using first_insert[of "Suc n" k v] by (simp add: inserts_def)
qed

lemma fill_keys30:
  "foldl (\<lambda>es k. leaf_insert_entries es k v) [] keys30 = entries_of keys30 v"
  by (simp add: keys30_def leaf_insert_entries_def LeafFindKey_def LeafFindKey_loop.simps
      entry_def entries_of_def)

lemma fill_keys29:
  "foldl (\<lambda>es k. leaf_insert_entries es k v) [] keys29 = entries_of keys29 v"
  by (simp add: keys29_def leaf_insert_entries_def LeafFindKey_def LeafFindKey_loop.simps
      entry_def entries_of_def)

lemma run_keys30:
  "run_ops (Suc n) (inserts keys30 v)
     \<lparr>buffer_pool_manager = NewBufferPoolManager 64 (OpenDisk []), root_page_id = - 1\<rparr>
   = Inr (replicate 30 (Flag True), leaf_store (entries_of keys30 v))"
proof -
  have k: "keys30 = hd keys30 # tl keys30" "length (tl keys30) \<le> 29" "length (tl keys30) = 29"
    by (simp_all add: keys30_def)
  show ?thesis
    using run_inserts_fresh[OF k(2), of n "hd keys30" v] k(1) k(3) fill_keys30[of v]
    by (simp add: replicate_30)
qed

lemma run_keys29:
  "run_ops (Suc n) (inserts keys29 v)
     \<lparr>buffer_pool_manager = NewBufferPoolManager 64 (OpenDisk []), root_page_id = - 1\<rparr>
   = Inr (replicate 29 (Flag True), leaf_store (entries_of keys29 v))"
proof -
  have k: "keys29 = hd keys29 # tl keys29" "length (tl keys29) \<le> 29" "length (tl keys29) = 28"
    by (simp_all add: keys29_def)
  show ?thesis
    using run_inserts_fresh[OF k(2), of n "hd keys29" v] k(1) k(3) fill_keys29[of v]
    by (simp add: replicate_29)
qed

lemma run_ops_append:
  "run_ops fuel (xs @ ys) t =
     (case run_ops fuel xs t of
        Inl e \<Rightarrow> Inl e
      | Inr (rs, t1) \<Rightarrow>
          (case run_ops fuel ys t1 of
             Inl e \<Rightarrow> Inl e
           | Inr (rs', t2) \<Rightarrow> Inr (rs @ rs', t2)))"
  by (induction xs arbitrary: t) (auto split: sum.splits)

lemma fresh_run_keys30:
  "fresh_run 64 (Suc n) (inserts keys30 v @ ops) =
     (case outcomes_from (Suc n) ops (leaf_store (entries_of keys30 v)) of
        Inl e \<Rightarrow> Inl e
      | Inr rs \<Rightarrow> Inr (replicate 30 (Flag True) @ rs))"
  by (simp add: fresh_run_def open_fresh_64 run_ops_append run_keys30 outcomes_from_def
      split: sum.splits)

lemma fresh_run_keys29:
  "fresh_run 64 (Suc n) (inserts keys29 v @ ops) =
     (case outcomes_from (Suc n) ops (leaf_store (entries_of keys29 v)) of
        Inl e \<Rightarrow> Inl e
      | Inr rs \<Rightarrow> Inr (replicate 29 (Flag True) @ rs))"
  by (simp add: fresh_run_def open_fresh_64 run_ops_append run_keys29 outcomes_from_def
      split: sum.splits)

lemma fresh_store_keys30:
  "fresh_store 64 (Suc n) (inserts keys30 v @ ops) =
     store_from (Suc n) ops (leaf_store (entries_of keys30 v))"
  by (simp add: fresh_store_def open_fresh_64 run_ops_append run_keys30 store_from_def
      split: sum.splits)

lemma two_Suc: "(2::nat) = Suc 1"
  by simp

section \<open>Inserting a key that is already in a full leaf\<close>

text \<open>
  \<open>Insert\<close> tests the fill of the leaf before it looks for the key: on a full leaf it calls
  \<open>SplitLeaf\<close>, which merges the new entry into the old ones without the duplicate check
  that \<open>LeafInsert\<close> makes. The leaf of the default configuration holds 30 entries. The
  evaluations below start from the root leaf filled with the keys 0 to 29.
\<close>

lemma eval_duplicate_search:
  "outcomes_from 2 [OpInsert 14 ''new'', OpSearch 14] (leaf_store (entries_of keys30 ''old''))
     = Inr [Flag True, Found (Some ''old'')]"
  by code_simp

lemma eval_duplicate_scan:
  "outcomes_from 2 [OpInsert 14 ''new'', OpSearch 14, OpScan 13 15]
     (leaf_store (entries_of keys30 ''old''))
     = Inr [Flag True, Found (Some ''old''),
            Pairs [(13, ''old''), (14, ''new''), (14, ''old''), (15, ''old'')]]"
  by code_simp

lemma eval_tombstone_reinsert:
  "outcomes_from 2
     [OpInsert 14 ''v'', OpRemove 14, OpSearch 14, OpScan 14 14, OpInsert 14 ''w'', OpSearch 14]
     (leaf_store (entries_of keys29 ''old''))
     = Inr [Flag True, Flag True, Found None, Pairs [], Flag True, Found None]"
  by code_simp

lemma eval_duplicate_in_leaf:
  "resident_leaf_keys 1
     (store_from 2 [OpInsert 0 ''new''] (leaf_store (entries_of keys30 ''old'')))
     = Some [0, 0, 1, 2, 3, 4, 5, 6, 7, 8, 9, 10, 11, 12, 13]"
  by code_simp

text \<open>
  Claim C1 (scan correctness). On the store built by inserting the keys 0 to 29 with value
  \<open>old\<close> and then key 14 with value \<open>new\<close>, \<open>Search 14\<close> returns \<open>old\<close>, yet \<open>Scan 13 15\<close>
  returns two pairs for key 14, one of them with the value \<open>new\<close> that is not the current
  value of the key: the result is not the set of pairs of keys with their current values.
\<close>

theorem scan_returns_duplicate_key:
  "fresh_run 64 2 (inserts keys30 ''old'' @ [OpInsert 14 ''new'', OpSearch 14, OpScan 13 15])
     = Inr (replicate 30 (Flag True) @
            [Flag True, Found (Some ''old''),
             Pairs [(13, ''old''), (14, ''new''), (14, ''old''), (15, ''old'')]])"
  unfolding two_Suc fresh_run_keys30
  using eval_duplicate_scan by (simp add: two_Suc)

text \<open>
  Claim C3 (search after insert). After the keys 0 to 29 have been inserted with value \<open>old\<close>,
  \<open>Insert 14 new\<close> returns true and the \<open>Search 14\<close> that follows it returns \<open>old\<close>: the
  split put the new entry last in the left leaf and the old one first in the right leaf,
  where the separator 14 sends the search.
\<close>

theorem search_after_insert_returns_old_value:
  "fresh_run 64 2 (inserts keys30 ''old'' @ [OpInsert 14 ''new'', OpSearch 14])
     = Inr (replicate 30 (Flag True) @ [Flag True, Found (Some ''old'')])"
  unfolding two_Suc fresh_run_keys30
  using eval_duplicate_search by (simp add: two_Suc)

text \<open>
  Claim C4 (tombstone round trip). The keys 0 to 13 and 15 to 29 are inserted, then
  \<open>Insert 14 v\<close> fills the leaf and \<open>Remove 14\<close> zeroes the value: \<open>Search 14\<close> finds nothing
  and \<open>Scan 14 14\<close> is empty, as claimed. The next \<open>Insert 14 w\<close> returns true, but the
  \<open>Search 14\<close> after it still finds nothing: the leaf was full, so the entry was not
  overwritten in place; the split left the zeroed entry where the search arrives.
\<close>

theorem reinsert_after_remove_not_found:
  "fresh_run 64 2
     (inserts keys29 ''old'' @
      [OpInsert 14 ''v'', OpRemove 14, OpSearch 14, OpScan 14 14, OpInsert 14 ''w'', OpSearch 14])
     = Inr (replicate 29 (Flag True) @
            [Flag True, Flag True, Found None, Pairs [], Flag True, Found None])"
  unfolding two_Suc fresh_run_keys29
  using eval_tombstone_reinsert by (simp add: two_Suc)

text \<open>
  Claim C6 (structural invariant). After the keys 0 to 29 and then key 0 again have been
  inserted, the leaf page 1 holds the key 0 twice: its entries are not strictly increasing.
\<close>

theorem leaf_keys_not_strictly_increasing:
  "resident_leaf_keys 1 (fresh_store 64 2 (inserts keys30 ''old'' @ [OpInsert 0 ''new'']))
     = Some [0, 0, 1, 2, 3, 4, 5, 6, 7, 8, 9, 10, 11, 12, 13]"
  unfolding two_Suc fresh_store_keys30
  using eval_duplicate_in_leaf by (simp add: two_Suc)

section \<open>Victim selection in the buffer pool\<close>



section \<open>The root page id is never reset\<close>



section \<open>What Remove returns\<close>

text \<open>
  Claim C2 (what Remove returns).  On an empty tree, and when the descent finds no frame, \<^term>\<open>Remove\<close>
  returns false and changes nothing.  When the descent reaches a leaf whose entries are
  sorted by key, \<open>Remove k\<close> returns true exactly when the leaf holds an entry with key \<open>k\<close>,
  whatever its value, live or already zeroed: it zeroes the value of the first such entry
  (\<^term>\<open>zero_first\<close>) and unpins the leaf dirty.  Otherwise it unpins the leaf clean, changing
  no page image, and returns false.
\<close>

theorem remove_result:
  "(root_page_id t = INVALID_PAGE_ID \<longrightarrow> Remove fuel k t = Inr (False, t)) \<and>
   (root_page_id t \<noteq> INVALID_PAGE_ID \<longrightarrow> FindLeafPage fuel k t = Inr (None, t1) \<longrightarrow>
      Remove fuel k t = Inr (False, t1)) \<and>
   (root_page_id t \<noteq> INVALID_PAGE_ID \<longrightarrow> FindLeafPage fuel k t = Inr (Some lf, t1) \<longrightarrow>
      as_leaf (frame_data lf t1) = Inr (p, n, es) \<longrightarrow> sorted (map key es) \<longrightarrow>
      Remove fuel k t =
        Inr (k \<in> key ` set es,
             if k \<in> key ` set es
             then tree_unpin (frame_page_id lf t1) True
                    (set_frame_data lf (put_leaf (frame_data lf t1) p n (zero_first k es)) t1)
             else tree_unpin (frame_page_id lf t1) False t1))"
proof (intro conjI impI)
  assume "root_page_id t = INVALID_PAGE_ID"
  then show "Remove fuel k t = Inr (False, t)" by (simp add: Remove_def)
next
  assume "root_page_id t \<noteq> INVALID_PAGE_ID" "FindLeafPage fuel k t = Inr (None, t1)"
  then show "Remove fuel k t = Inr (False, t1)" by (simp add: Remove_def)
next
  assume a: "root_page_id t \<noteq> INVALID_PAGE_ID" "FindLeafPage fuel k t = Inr (Some lf, t1)"
    "as_leaf (frame_data lf t1) = Inr (p, n, es)" "sorted (map key es)"
  note i = LeafFindKey_found_iff[OF a(4), of k]
  show "Remove fuel k t =
        Inr (k \<in> key ` set es,
             if k \<in> key ` set es
             then tree_unpin (frame_page_id lf t1) True
                    (set_frame_data lf (put_leaf (frame_data lf t1) p n (zero_first k es)) t1)
             else tree_unpin (frame_page_id lf t1) False t1)"
  proof (cases "k \<in> key ` set es")
    case True
    then have f: "LeafFindKey es k < length es" "key (es ! LeafFindKey es k) = k"
      using i by simp_all
    show ?thesis
      using a(1,2,3) f True zero_first_LeafFindKey[OF a(4) True]
      by (simp add: Remove_def Let_def frame_page_id_set_frame_data)
  next
    case False
    then have "\<not> (LeafFindKey es k < length es \<and> key (es ! LeafFindKey es k) = k)"
      using i by simp
    then have "length es \<le> LeafFindKey es k \<or> key (es ! LeafFindKey es k) \<noteq> k" by auto
    then show ?thesis
      using a(1,2,3) False by (simp add: Remove_def Let_def)
  qed
qed

text \<open>
  The theorem on the store left by \<open>Insert(1, a)\<close> and \<open>Remove(1)\<close> in a pool of two frames:
  the only entry is a tombstone, and \<open>Remove(1)\<close> returns true again.
\<close>

theorem remove_result_witness:
  "fresh_store 2 2 [OpInsert 1 ''a'', OpRemove 1] = Inr tomb_store \<and>
   \<not> value_present zero_value \<and> Remove 2 1 tomb_store = Inr (True, tomb_store)"
proof -
  have r: "root_page_id tomb_store \<noteq> INVALID_PAGE_ID"
    by (simp add: tomb_store_def INVALID_PAGE_ID_def)
  have f: "FindLeafPage 2 1 tomb_store = Inr (Some 1, tomb_pinned)" by code_simp
  have l: "as_leaf (frame_data 1 tomb_pinned)
             = Inr (- 1, - 1, [\<lparr>key = 1, value_bytes = zero_value\<rparr>])"
    by (simp add: frame_data_def tomb_pinned_def)
  have s: "sorted (map key [\<lparr>key = 1, value_bytes = zero_value\<rparr>])" by simp
  have u: "tree_unpin (frame_page_id 1 tomb_pinned) True
             (set_frame_data 1
                (put_leaf (frame_data 1 tomb_pinned) (- 1) (- 1)
                   (zero_first 1 [\<lparr>key = 1, value_bytes = zero_value\<rparr>])) tomb_pinned)
           = tomb_store"
    by code_simp
  have v: "\<not> value_present zero_value" by code_simp
  from remove_result[of tomb_store 2 1 tomb_pinned 1 "- 1" "- 1"
      "[\<lparr>key = 1, value_bytes = zero_value\<rparr>]"] r f l s u v eval_tomb_store
  show ?thesis by simp
qed

text \<open>
  The claim as worded fails on the default store: after \<open>Insert(1, a)\<close> and \<open>Remove(1)\<close> the
  key 1 is absent (\<open>Search(1)\<close> finds nothing), and a second \<open>Remove(1)\<close> returns true.
\<close>

theorem remove_of_tombstone_returns_true:
  "fresh_run 64 2 [OpInsert 1 ''a'', OpRemove 1, OpSearch 1, OpRemove 1]
     = Inr [Flag True, Flag True, Found None, Flag True]"
  by code_simp

section \<open>Values at the Insert boundary\<close>

text \<open>
  Claim C9 (value encoding).  The keys 0 to 29 are inserted with value \<open>old\<close>, which fills
  the root leaf.  \<open>Insert 14\<close> with a value of 130 bytes returns true, and the \<open>Search 14\<close>
  after it returns \<open>old\<close>, not the first 127 bytes of the value.  In the same store,
  \<open>Insert 14\<close> with the empty value returns true, and then \<open>Search 14\<close> returns \<open>old\<close> and
  \<open>Scan 14 14\<close> returns the pair of key 14, where the claim has no value and no pair.  In
  both runs the leaf was full, so the value went into a second entry for key 14 and the
  old entry is the one the search reaches.
\<close>

theorem insert_value_not_stored_in_full_leaf:
  "fresh_run 64 2 (inserts keys30 ''old'' @ [OpInsert 14 (replicate 130 CHR ''x''), OpSearch 14])
     = Inr (replicate 30 (Flag True) @ [Flag True, Found (Some ''old'')]) \<and>
   fresh_run 64 2 (inserts keys30 ''old'' @ [OpInsert 14 [], OpSearch 14, OpScan 14 14])
     = Inr (replicate 30 (Flag True) @ [Flag True, Found (Some ''old''), Pairs [(14, ''old'')]])"
  unfolding two_Suc fresh_run_keys30
  using eval_long_value eval_empty_value by (simp add: two_Suc)

section \<open>A frame lost by the buffer pool\<close>


section \<open>A root id that is not persisted\<close>


end
